theory Spec2Isabelle
  imports Main
begin

section \<open>The instruction tree\<close>

text \<open>
  MergeLocals.cpp works on the expression tree of one function. Every node of that tree
  is a heap object, and both the pass (its vector \<open>copies\<close>) and the LocalGraph it
  consults address nodes by pointer. The model keeps the tree as a datatype and gives
  every node its address as a label, so that pointer identity is label equality.

  Only two classes of node are inspected by the pass: \<open>GetLocal\<close> (field \<open>index\<close>) and
  \<open>SetLocal\<close> (fields \<open>index\<close> and \<open>value\<close>). Every other class is a node \<open>Other\<close>
  carrying an uninterpreted payload \<open>'k\<close> (its class and its non-child fields) and the
  list of its children. Local indices are only copied and compared, never computed
  with, so they are natural numbers.
\<close>

type_synonym addr = nat
type_synonym Index = nat

datatype 'k Expression =
    GetLocal addr Index
  | SetLocal addr Index "'k Expression"
  | Other addr 'k "'k Expression list"

fun ident :: "'k Expression \<Rightarrow> addr" where
  "ident (GetLocal a i) = a"
| "ident (SetLocal a i v) = a"
| "ident (Other a k es) = a"

text \<open>All nodes of a tree, children before their parent, siblings left to right.\<close>

fun nodes :: "'k Expression \<Rightarrow> 'k Expression list" where
  "nodes (GetLocal a i) = [GetLocal a i]"
| "nodes (SetLocal a i v) = nodes v @ [SetLocal a i v]"
| "nodes (Other a k es) = concat (map nodes es) @ [Other a k es]"

definition addrs :: "'k Expression \<Rightarrow> addr list" where
  "addrs t = map ident (nodes t)"

text \<open>Following a pointer: the node of the tree that lives at address \<open>p\<close>.\<close>

fun deref :: "addr \<Rightarrow> 'k Expression \<Rightarrow> 'k Expression option"
  and deref_list :: "addr \<Rightarrow> 'k Expression list \<Rightarrow> 'k Expression option" where
  "deref p (GetLocal a i) = (if p = a then Some (GetLocal a i) else None)"
| "deref p (SetLocal a i v) = (if p = a then Some (SetLocal a i v) else deref p v)"
| "deref p (Other a k es) = (if p = a then Some (Other a k es) else deref_list p es)"
| "deref_list p [] = None"
| "deref_list p (e # es) =
     (case deref p e of Some n \<Rightarrow> Some n | None \<Rightarrow> deref_list p es)"

text \<open>The assignment \<open>p->index = d\<close> through a pointer \<open>p\<close> to a GetLocal.\<close>

fun setIndex :: "addr \<Rightarrow> Index \<Rightarrow> 'k Expression \<Rightarrow> 'k Expression" where
  "setIndex p d (GetLocal a i) = GetLocal a (if a = p then d else i)"
| "setIndex p d (SetLocal a i v) = SetLocal a i (setIndex p d v)"
| "setIndex p d (Other a k es) = Other a k (map (setIndex p d) es)"

text \<open>The assignment \<open>p->value = e\<close> through a pointer \<open>p\<close> to a SetLocal.\<close>

fun setValue :: "addr \<Rightarrow> 'k Expression \<Rightarrow> 'k Expression \<Rightarrow> 'k Expression" where
  "setValue p e (GetLocal a i) = GetLocal a i"
| "setValue p e (SetLocal a i v) =
     (if a = p then SetLocal a i e else SetLocal a i (setValue p e v))"
| "setValue p e (Other a k es) = Other a k (map (setValue p e) es)"

section \<open>The pass\<close>

text \<open>
  The state of the pass object: its vector \<open>copies\<close>, and the arena of the module
  that \<open>Builder\<close> allocates from, reduced to the next address it will hand out.
\<close>

record MergeLocals =
  allocator :: addr
  copies :: "addr list"

text \<open>
  \<open>visitSetLocal\<close>, applied to the SetLocal at address \<open>a\<close> with fields \<open>i\<close> and \<open>v\<close>:
  when the value is a GetLocal of another index, a new SetLocal of the get's index is
  allocated around the get, becomes the value, and the node is pushed on \<open>copies\<close>.
\<close>

fun visitSetLocal :: "addr \<Rightarrow> Index \<Rightarrow> 'k Expression \<Rightarrow> MergeLocals \<Rightarrow>
    'k Expression \<times> MergeLocals" where
  "visitSetLocal a i (GetLocal g j) s =
     (if j \<noteq> i
      then (SetLocal a i (SetLocal (allocator s) j (GetLocal g j)),
            s\<lparr>allocator := allocator s + 1, copies := copies s @ [a]\<rparr>)
      else (SetLocal a i (GetLocal g j), s))"
| "visitSetLocal a i v s = (SetLocal a i v, s)"

text \<open>
  Modelled from the spec: the post-order walk \<open>super::doWalkFunction\<close> of the
  PostWalker (wasm-traversal.h is not among the sources). It traverses every
  instruction of the body exactly once, children before their parent, and calls
  \<open>visitSetLocal\<close> on each SetLocal; the visitor of every other class does nothing.
\<close>

fun walk :: "'k Expression \<Rightarrow> MergeLocals \<Rightarrow> 'k Expression \<times> MergeLocals"
  and walk_list :: "'k Expression list \<Rightarrow> MergeLocals \<Rightarrow> 'k Expression list \<times> MergeLocals"
  where
  "walk (GetLocal a i) s = (GetLocal a i, s)"
| "walk (SetLocal a i v) s = (case walk v s of (v', s') \<Rightarrow> visitSetLocal a i v' s')"
| "walk (Other a k es) s = (case walk_list es s of (es', s') \<Rightarrow> (Other a k es', s'))"
| "walk_list [] s = ([], s)"
| "walk_list (e # es) s =
     (case walk e s of (e', s') \<Rightarrow>
        (case walk_list es s' of (es', s'') \<Rightarrow> (e' # es', s'')))"

text \<open>
  The LocalGraph (ir/local-graph.h is not among the sources) is a parameter of the
  model. The pass reads two of its maps, both keyed by node address:
  \<open>getSetses\<close>, the sets that may reach a get, whose members may be the null pointer
  (\<open>None\<close>) and of which the pass reads the size and the first member; and
  \<open>setInfluences\<close>, the gets a set may reach, which the pass iterates over. Each is
  given as the list of its members in iteration order; a key that is absent has the
  empty list, as \<open>operator[]\<close> gives.
\<close>

record LocalGraph =
  getSetses :: "addr \<Rightarrow> addr option list"
  setInfluences :: "addr \<Rightarrow> addr list"

text \<open>
  The ways the pass can stop: its two assertions, the assertion inside
  \<open>cast<SetLocal>()\<close>, and a pointer of the graph that does not address a GetLocal
  of the function (which a LocalGraph of this function cannot contain).
\<close>

datatype error = AssertIndex | AssertSets | CastFailed | NotAGetLocal

text \<open>
  The first inner loop of \<open>optimizeCopies\<close> over \<open>setInfluences[trivial]\<close>; \<open>tr\<close> and
  \<open>S\<close> are the address and the index of \<open>trivial\<close>, \<open>can\<close> is \<open>canDoThemAll\<close>.
\<close>

fun checkInfluences :: "LocalGraph \<Rightarrow> addr \<Rightarrow> Index \<Rightarrow> 'k Expression \<Rightarrow> addr list \<Rightarrow>
    bool \<Rightarrow> error + bool" where
  "checkInfluences G tr S t [] can = Inr can"
| "checkInfluences G tr S t (r # rs) can =
     (case deref r t of
        Some (GetLocal _ i) \<Rightarrow>
          if i \<noteq> S then Inl AssertIndex
          else if length (getSetses G r) = 1
          then (if hd (getSetses G r) = Some tr
                then checkInfluences G tr S t rs can
                else Inl AssertSets)
          else checkInfluences G tr S t rs False
      | _ \<Rightarrow> Inl NotAGetLocal)"

text \<open>The body of the outer loop of \<open>optimizeCopies\<close>, for one element of \<open>copies\<close>.\<close>

definition optimizeCopy :: "LocalGraph \<Rightarrow> addr \<Rightarrow> 'k Expression \<Rightarrow> error + 'k Expression"
  where
  "optimizeCopy G copy t =
     (case deref copy t of
        Some (SetLocal _ D (SetLocal tr S _)) \<Rightarrow>
          (case checkInfluences G tr S t (setInfluences G tr) True of
             Inl e \<Rightarrow> Inl e
           | Inr can \<Rightarrow>
               (let t1 = (if can then fold (\<lambda>r. setIndex r D) (setInfluences G tr) t
                          else t)
                in (case deref copy t1 of
                      Some (SetLocal _ _ (SetLocal _ _ v)) \<Rightarrow> Inr (setValue copy v t1)
                    | _ \<Rightarrow> Inl CastFailed)))
      | _ \<Rightarrow> Inl CastFailed)"

fun optimizeLoop :: "LocalGraph \<Rightarrow> addr list \<Rightarrow> 'k Expression \<Rightarrow> error + 'k Expression"
  where
  "optimizeLoop G [] t = Inr t"
| "optimizeLoop G (c # cs) t =
     (case optimizeCopy G c t of Inl e \<Rightarrow> Inl e | Inr t' \<Rightarrow> optimizeLoop G cs t')"

text \<open>
  \<open>optimizeCopies\<close>: the graph is built from the function as it is at that moment
  (\<open>lg\<close> stands for the constructor of LocalGraph followed by \<open>computeInfluences\<close>),
  then every element of \<open>copies\<close> is processed in order.
\<close>

definition optimizeCopies :: "('k Expression \<Rightarrow> LocalGraph) \<Rightarrow> MergeLocals \<Rightarrow> 'k Expression \<Rightarrow>
    error + 'k Expression" where
  "optimizeCopies lg s t = optimizeLoop (lg t) (copies s) t"

definition doWalkFunction :: "('k Expression \<Rightarrow> LocalGraph) \<Rightarrow> 'k Expression \<Rightarrow> MergeLocals \<Rightarrow>
    error + ('k Expression \<times> MergeLocals)" where
  "doWalkFunction lg func s =
     (case walk func s of
        (t, s') \<Rightarrow>
          (case optimizeCopies lg s' t of
             Inl e \<Rightarrow> Inl e
           | Inr out \<Rightarrow> Inr (out, s')))"

section \<open>The specification's vocabulary\<close>

text \<open>
  A copy, in the words of the specification: a write whose value expression is exactly
  a read of a different slot.
\<close>

fun isCopy :: "'k Expression \<Rightarrow> bool" where
  "isCopy (SetLocal a i (GetLocal g j)) = (j \<noteq> i)"
| "isCopy _ = False"

text \<open>The addresses of the copies of a tree, in the order the traversal meets them.\<close>

definition copyWrites :: "'k Expression \<Rightarrow> addr list" where
  "copyWrites t = map ident (filter isCopy (nodes t))"

text \<open>
  The instrumented tree, in the words of the specification: every copy
  \<open>D := read(S)\<close> becomes \<open>D := (S := read(S))\<close>, the new self-write taking the next
  unused address, and every other node is left as it is. The first self-write of a
  tree gets address \<open>n\<close>.
\<close>

fun instrument :: "addr \<Rightarrow> 'k Expression \<Rightarrow> 'k Expression"
  and instrument_list :: "addr \<Rightarrow> 'k Expression list \<Rightarrow> 'k Expression list" where
  "instrument n (GetLocal a i) = GetLocal a i"
| "instrument n (SetLocal a i v) =
     (case v of
        GetLocal g j \<Rightarrow>
          if j \<noteq> i then SetLocal a i (SetLocal n j (GetLocal g j))
          else SetLocal a i (GetLocal g j)
      | _ \<Rightarrow> SetLocal a i (instrument n v))"
| "instrument n (Other a k es) = Other a k (instrument_list n es)"
| "instrument_list n [] = []"
| "instrument_list n (e # es) =
     instrument n e # instrument_list (n + length (copyWrites e)) es"

text \<open>
  The contract of the Dependency Graph over a tree, in the words of the specification:
  for any write \<open>W\<close> and read \<open>R\<close> with \<open>R\<close> in \<open>influences[W]\<close>, \<open>R\<close> reads the slot
  \<open>W\<close> writes, and \<open>W\<close> appears in \<open>reaching-defs[R]\<close>.
\<close>

definition graphContract :: "LocalGraph \<Rightarrow> 'k Expression \<Rightarrow> bool" where
  "graphContract G t =
     (\<forall>x\<in>set (nodes t).
        case x of
          SetLocal p j v \<Rightarrow>
            (\<forall>r\<in>set (setInfluences G p).
               deref r t = Some (GetLocal r j) \<and> Some p \<in> set (getSetses G r))
        | _ \<Rightarrow> True)"

text \<open>
  The shape of a tree: the tree with the slot of every read forgotten. Two trees of
  the same shape have the same nodes at the same addresses in the same positions, and
  the same destination slot in every write.
\<close>

fun eraseReads :: "'k Expression \<Rightarrow> 'k Expression" where
  "eraseReads (GetLocal a i) = GetLocal a 0"
| "eraseReads (SetLocal a i v) = SetLocal a i (eraseReads v)"
| "eraseReads (Other a k es) = Other a k (map eraseReads es)"

section \<open>A closed form of the trees the pass goes through\<close>

text \<open>
  Every tree the pass produces from a body is the body with some copies wrapped and
  some reads renamed. \<open>render w \<rho>\<close> draws that tree: \<open>w\<close> gives the address of the
  self-write of each copy that is (still) wrapped, \<open>\<rho>\<close> the new slot of each read
  that has been renamed.
\<close>

fun index :: "'k Expression \<Rightarrow> Index" where
  "index (GetLocal a i) = i"
| "index (SetLocal a i v) = i"
| "index (Other a k es) = 0"

fun render :: "(addr \<rightharpoonup> addr) \<Rightarrow> (addr \<rightharpoonup> Index) \<Rightarrow> 'k Expression \<Rightarrow> 'k Expression" where
  "render w \<rho> (GetLocal a i) = GetLocal a (case \<rho> a of Some d \<Rightarrow> d | None \<Rightarrow> i)"
| "render w \<rho> (SetLocal a i v) =
     (if isCopy (SetLocal a i v) \<and> w a \<noteq> None
      then SetLocal a i (SetLocal (the (w a)) (index v) (render w \<rho> v))
      else SetLocal a i (render w \<rho> v))"
| "render w \<rho> (Other a k es) = Other a k (map (render w \<rho>) es)"

text \<open>The self-writes of the copies \<open>cs\<close> when allocation starts at \<open>n\<close>.\<close>

definition wmap :: "addr \<Rightarrow> addr list \<Rightarrow> (addr \<rightharpoonup> addr)" where
  "wmap n cs = map_of (zip cs [n ..< n + length cs])"

definition renameTo :: "Index \<Rightarrow> addr list \<Rightarrow> (addr \<rightharpoonup> Index) \<Rightarrow> (addr \<rightharpoonup> Index)" where
  "renameTo D rs \<rho> = (\<lambda>r. if r \<in> set rs then Some D else \<rho> r)"

text \<open>
  The eligibility rule of the specification: a self-write is eligible unless one of
  the reads it influences has a reaching-definition set whose size is not 1.
\<close>

definition eligible :: "LocalGraph \<Rightarrow> addr \<Rightarrow> bool" where
  "eligible G tr = (\<forall>r\<in>set (setInfluences G tr). length (getSetses G r) = 1)"

definition dest :: "'k Expression \<Rightarrow> addr \<Rightarrow> Index" where
  "dest t c = (case deref c t of Some n \<Rightarrow> index n | None \<Rightarrow> 0)"

text \<open>The renaming that processing the copies \<open>cs\<close> in order adds to \<open>\<rho>\<close>.\<close>

fun merges :: "LocalGraph \<Rightarrow> (addr \<rightharpoonup> addr) \<Rightarrow> (addr \<Rightarrow> Index) \<Rightarrow> addr list \<Rightarrow>
    (addr \<rightharpoonup> Index) \<Rightarrow> (addr \<rightharpoonup> Index)" where
  "merges G w dst [] \<rho> = \<rho>"
| "merges G w dst (c # cs) \<rho> =
     merges G w dst cs
       (if eligible G (the (w c))
        then renameTo (dst c) (setInfluences G (the (w c))) \<rho>
        else \<rho>)"

definition renaming :: "('k Expression \<Rightarrow> LocalGraph) \<Rightarrow> addr \<Rightarrow> 'k Expression \<Rightarrow> (addr \<rightharpoonup> Index)"
  where
  "renaming lg n func =
     merges (lg (instrument n func)) (wmap n (copyWrites func)) (dest func) (copyWrites func)
       Map.empty"

section \<open>Running code: a graph and an evaluator for code without branches\<close>

text \<open>
  Modelled from the spec: the Dependency Graph (ir/local-graph.h is not among the
  sources) on code without branches, where every node evaluates its children from
  left to right and a write assigns after its value. There the set that reaches a read
  is the last write of its slot before it (the null pointer, \<open>None\<close>, when there is
  none: the value the local has on entry), and a write influences the reads it reaches.
  \<open>reach\<close> carries the last write of every slot and lists each read with the set that
  reaches it.
\<close>

fun reach :: "'k Expression \<Rightarrow> (Index \<Rightarrow> addr option) \<times> (addr \<times> addr option) list \<Rightarrow>
    (Index \<Rightarrow> addr option) \<times> (addr \<times> addr option) list"
  and reach_list :: "'k Expression list \<Rightarrow>
    (Index \<Rightarrow> addr option) \<times> (addr \<times> addr option) list \<Rightarrow>
    (Index \<Rightarrow> addr option) \<times> (addr \<times> addr option) list" where
  "reach (GetLocal a i) st = (fst st, snd st @ [(a, fst st i)])"
| "reach (SetLocal a i v) st = (case reach v st of (cur, gs) \<Rightarrow> (cur(i := Some a), gs))"
| "reach (Other a k es) st = reach_list es st"
| "reach_list [] st = st"
| "reach_list (e # es) st = reach_list es (reach e st)"

text \<open>
  Modelled from the spec: the two maps of the Dependency Graph of code without
  branches, read off the list \<open>reach\<close> returns.
\<close>

definition straightLineGraph :: "'k Expression \<Rightarrow> LocalGraph" where
  "straightLineGraph t =
     (let gs = snd (reach t (\<lambda>i. None, [])) in
      \<lparr>getSetses = (\<lambda>r. map snd (filter (\<lambda>p. fst p = r) gs)),
       setInfluences = (\<lambda>w. map fst (filter (\<lambda>p. snd p = Some w) gs))\<rparr>)"

text \<open>
  The payload of the two other classes of node the evaluator below knows: a constant
  with its value, and a block.
\<close>

datatype op = Const int | Block

text \<open>
  Modelled from the spec: the value a tree evaluates to (the interpreter is not among
  the sources), for trees of reads, writes, constants and blocks. A slot is a mutable
  storage location; a write stores the value of its value expression and has that
  value as its own; a block evaluates its children in order and has the value of the
  last. Any other tree has no value in this model.
\<close>

fun eval :: "op Expression \<Rightarrow> (Index \<Rightarrow> int) \<Rightarrow> (int \<times> (Index \<Rightarrow> int)) option"
  and eval_list :: "op Expression list \<Rightarrow> int \<Rightarrow> (Index \<Rightarrow> int) \<Rightarrow>
    (int \<times> (Index \<Rightarrow> int)) option" where
  "eval (GetLocal a i) \<sigma> = Some (\<sigma> i, \<sigma>)"
| "eval (SetLocal a i v) \<sigma> =
     (case eval v \<sigma> of Some (x, \<sigma>') \<Rightarrow> Some (x, \<sigma>'(i := x)) | None \<Rightarrow> None)"
| "eval (Other a (Const c) es) \<sigma> = (if es = [] then Some (c, \<sigma>) else None)"
| "eval (Other a Block es) \<sigma> = eval_list es 0 \<sigma>"
| "eval_list [] x \<sigma> = Some (x, \<sigma>)"
| "eval_list (e # es) x \<sigma> =
     (case eval e \<sigma> of Some (y, \<sigma>') \<Rightarrow> eval_list es y \<sigma>' | None \<Rightarrow> None)"

text \<open>Modelled from the spec: the return value of a function, the value of its body.\<close>

definition returns :: "op Expression \<Rightarrow> (Index \<Rightarrow> int) \<Rightarrow> int option" where
  "returns t \<sigma> = map_option fst (eval t \<sigma>)"

section \<open>Example functions\<close>

text \<open>
  With \<open>x\<close> slot 0 and \<open>y\<close> slot 1: \<open>x = y; x = 5; y\<close>. The copy is followed by
  another write of its destination and then by a read of its source.
\<close>

definition overwritten :: "op Expression" where
  "overwritten =
     Other 0 Block
       [SetLocal 1 0 (GetLocal 2 1),
        SetLocal 3 0 (Other 4 (Const 5) []),
        GetLocal 5 1]"

text \<open>
  Its instrumented form, with the self-write of \<open>y\<close> at address 6; and what the pass
  makes of it: the last read now reads \<open>x\<close>.
\<close>

definition overwritten_instrumented :: "op Expression" where
  "overwritten_instrumented =
     Other 0 Block
       [SetLocal 1 0 (SetLocal 6 1 (GetLocal 2 1)),
        SetLocal 3 0 (Other 4 (Const 5) []),
        GetLocal 5 1]"

definition overwritten_merged :: "op Expression" where
  "overwritten_merged =
     Other 0 Block
       [SetLocal 1 0 (GetLocal 2 1),
        SetLocal 3 0 (Other 4 (Const 5) []),
        GetLocal 5 0]"

text \<open>
  With \<open>x\<close> slot 0, \<open>y\<close> slot 1 and \<open>z\<close> slot 2: \<open>z = y; x = y\<close>; its
  instrumented form; and what the pass makes of it, \<open>z = y; x = z\<close>.
\<close>

definition twoCopies :: "op Expression" where
  "twoCopies =
     Other 0 Block
       [SetLocal 1 2 (GetLocal 2 1),
        SetLocal 3 0 (GetLocal 4 1)]"

definition twoCopies_instrumented :: "op Expression" where
  "twoCopies_instrumented =
     Other 0 Block
       [SetLocal 1 2 (SetLocal 5 1 (GetLocal 2 1)),
        SetLocal 3 0 (SetLocal 6 1 (GetLocal 4 1))]"

definition twoCopies_merged :: "op Expression" where
  "twoCopies_merged =
     Other 0 Block
       [SetLocal 1 2 (GetLocal 2 1),
        SetLocal 3 0 (GetLocal 4 2)]"

text \<open>
  Scenario 2 of the specification, with \<open>D\<close> slot 0, \<open>S\<close> slot 1 and \<open>w\<close> slot 2:
  \<open>D = read(S); w = read(S) + 1; return w\<close>; its instrumented form; and the
  result the specification gives for it, \<open>D = read(S); w = read(D) + 1; return w\<close>.
\<close>

definition scenario2 :: "string Expression" where
  "scenario2 =
     Other 0 ''block''
       [SetLocal 1 0 (GetLocal 2 1),
        SetLocal 3 2 (Other 4 ''add'' [GetLocal 5 1, Other 6 ''const 1'' []]),
        Other 7 ''return'' [GetLocal 8 2]]"

definition scenario2_instrumented :: "string Expression" where
  "scenario2_instrumented =
     Other 0 ''block''
       [SetLocal 1 0 (SetLocal 9 1 (GetLocal 2 1)),
        SetLocal 3 2 (Other 4 ''add'' [GetLocal 5 1, Other 6 ''const 1'' []]),
        Other 7 ''return'' [GetLocal 8 2]]"

definition scenario2_merged :: "string Expression" where
  "scenario2_merged =
     Other 0 ''block''
       [SetLocal 1 0 (GetLocal 2 1),
        SetLocal 3 2 (Other 4 ''add'' [GetLocal 5 0, Other 6 ''const 1'' []]),
        Other 7 ''return'' [GetLocal 8 2]]"

text \<open>
  The end of scenario 3 of the specification, with \<open>D\<close> slot 0, \<open>S\<close> slot 1, \<open>w\<close>
  slot 2 and \<open>c\<close> slot 3: \<open>D = read(S); if c { S = 9 }; w = read(S) + 1\<close>; and the
  graph of its instrumented form, in which the last read of \<open>S\<close> is reached by the
  write \<open>S = 9\<close> (address 5) and by the self-write of the copy (address 11).
\<close>

definition scenario3 :: "string Expression" where
  "scenario3 =
     Other 0 ''block''
       [SetLocal 1 0 (GetLocal 2 1),
        Other 3 ''if'' [GetLocal 4 3, SetLocal 5 1 (Other 6 ''const 9'' [])],
        SetLocal 7 2 (Other 8 ''add'' [GetLocal 9 1, Other 10 ''const 1'' []])]"

definition scenario3_instrumented :: "string Expression" where
  "scenario3_instrumented =
     Other 0 ''block''
       [SetLocal 1 0 (SetLocal 11 1 (GetLocal 2 1)),
        Other 3 ''if'' [GetLocal 4 3, SetLocal 5 1 (Other 6 ''const 9'' [])],
        SetLocal 7 2 (Other 8 ''add'' [GetLocal 9 1, Other 10 ''const 1'' []])]"

definition graph3 :: LocalGraph where
  "graph3 =
     \<lparr>getSetses = (\<lambda>r. if r = 2 then [None] else if r = 4 then [None]
                        else if r = 9 then [Some 5, Some 11] else []),
      setInfluences = (\<lambda>w. if w = 5 then [9] else if w = 11 then [9] else [])\<rparr>"

text \<open>A function without a copy: \<open>x = 7; x = x\<close>.\<close>

definition noCopies :: "string Expression" where
  "noCopies =
     Other 0 ''block''
       [SetLocal 1 0 (Other 2 ''const 7'' []),
        SetLocal 3 0 (GetLocal 4 0)]"

text \<open>
  With \<open>x\<close> slot 0 and \<open>y\<close> slot 1: \<open>x = y; x = y\<close>; its instrumented form; and
  what the pass makes of it, \<open>x = y; x = x\<close>.
\<close>

definition sameCopies :: "op Expression" where
  "sameCopies =
     Other 0 Block
       [SetLocal 1 0 (GetLocal 2 1),
        SetLocal 3 0 (GetLocal 4 1)]"

definition sameCopies_instrumented :: "op Expression" where
  "sameCopies_instrumented =
     Other 0 Block
       [SetLocal 1 0 (SetLocal 5 1 (GetLocal 2 1)),
        SetLocal 3 0 (SetLocal 6 1 (GetLocal 4 1))]"

definition sameCopies_merged :: "op Expression" where
  "sameCopies_merged =
     Other 0 Block
       [SetLocal 1 0 (GetLocal 2 1),
        SetLocal 3 0 (GetLocal 4 0)]"

text \<open>
  With \<open>x\<close> slot 0, \<open>y\<close> slot 1 and \<open>z\<close> slot 2: \<open>z = y; x = y; y\<close>; its
  instrumented form; and what the pass makes of it, \<open>z = y; x = z; x\<close>.
\<close>

definition chained :: "op Expression" where
  "chained =
     Other 0 Block
       [SetLocal 1 2 (GetLocal 2 1),
        SetLocal 3 0 (GetLocal 4 1),
        GetLocal 5 1]"

definition chained_instrumented :: "op Expression" where
  "chained_instrumented =
     Other 0 Block
       [SetLocal 1 2 (SetLocal 6 1 (GetLocal 2 1)),
        SetLocal 3 0 (SetLocal 7 1 (GetLocal 4 1)),
        GetLocal 5 1]"

definition chained_merged :: "op Expression" where
  "chained_merged =
     Other 0 Block
       [SetLocal 1 2 (GetLocal 2 1),
        SetLocal 3 0 (GetLocal 4 2),
        GetLocal 5 0]"

section \<open>The run, step by step\<close>

text \<open>
  The trees the loop of \<open>optimizeCopies\<close> goes through: the tree it starts from, then
  the tree after each copy it has processed, as long as no assertion fires.
\<close>

fun trees :: "LocalGraph \<Rightarrow> addr list \<Rightarrow> 'k Expression \<Rightarrow> 'k Expression list" where
  "trees G [] t = [t]"
| "trees G (c # cs) t =
     t # (case optimizeCopy G c t of Inl e \<Rightarrow> [] | Inr t' \<Rightarrow> trees G cs t')"

text \<open>
  How often the node at address \<open>r\<close> differs between one tree of a sequence and the
  next.
\<close>

fun changes :: "addr \<Rightarrow> 'k Expression list \<Rightarrow> nat" where
  "changes r (t # t' # ts) = (if deref r t' \<noteq> deref r t then 1 else 0) + changes r (t' # ts)"
| "changes r ts = 0"

text \<open>
  The same run with its two kinds of event recorded in the order they happen: the
  construction of a LocalGraph, with the tree it is built from, and the start of an
  iteration of the loop over \<open>copies\<close>, with the copy it processes. The three functions
  below are \<open>optimizeLoop\<close>, \<open>optimizeCopies\<close> and \<open>doWalkFunction\<close> again, each event
  appended to the log where the source performs it.
\<close>

datatype 'k event = BuildGraph "'k Expression" | ProcessCopy addr

fun optimizeLoop_log :: "LocalGraph \<Rightarrow> addr list \<Rightarrow> 'k Expression \<Rightarrow> 'k event list \<Rightarrow>
    (error + 'k Expression) \<times> 'k event list" where
  "optimizeLoop_log G [] t log = (Inr t, log)"
| "optimizeLoop_log G (c # cs) t log =
     (case optimizeCopy G c t of
        Inl e \<Rightarrow> (Inl e, log @ [ProcessCopy c])
      | Inr t' \<Rightarrow> optimizeLoop_log G cs t' (log @ [ProcessCopy c]))"

definition optimizeCopies_log :: "('k Expression \<Rightarrow> LocalGraph) \<Rightarrow> MergeLocals \<Rightarrow> 'k Expression \<Rightarrow>
    'k event list \<Rightarrow> (error + 'k Expression) \<times> 'k event list" where
  "optimizeCopies_log lg s t log = optimizeLoop_log (lg t) (copies s) t (log @ [BuildGraph t])"

definition doWalkFunction_log :: "('k Expression \<Rightarrow> LocalGraph) \<Rightarrow> 'k Expression \<Rightarrow> MergeLocals \<Rightarrow>
    'k event list \<Rightarrow> (error + ('k Expression \<times> MergeLocals)) \<times> 'k event list" where
  "doWalkFunction_log lg func s log =
     (case walk func s of
        (t, s') \<Rightarrow>
          (case optimizeCopies_log lg s' t log of
             (Inl e, l) \<Rightarrow> (Inl e, l)
           | (Inr out, l) \<Rightarrow> (Inr (out, s'), l)))"

section \<open>Properties of the traversal\<close>

lemma copyWrites_simps [simp]:
  "copyWrites (GetLocal a i) = []"
  "copyWrites (SetLocal a i v) = copyWrites v @ (if isCopy (SetLocal a i v) then [a] else [])"
  "copyWrites (Other a k es) = concat (map copyWrites es)"
  by (simp_all add: copyWrites_def[abs_def] map_concat filter_concat comp_def)

lemma walk_instrument:
  "walk (t::'k Expression) s =
      (instrument (allocator s) t,
       s\<lparr>allocator := allocator s + length (copyWrites t),
         copies := copies s @ copyWrites t\<rparr>)"
  and walk_list_instrument:
  "walk_list (ts::'k Expression list) s =
      (instrument_list (allocator s) ts,
       s\<lparr>allocator := allocator s + length (concat (map copyWrites ts)),
         copies := copies s @ concat (map copyWrites ts)\<rparr>)"
proof (induction t s and ts s rule: walk_walk_list.induct)
  case (1 a i s)
  then show ?case by simp
next
  case (2 a i v s)
  then show ?case by (cases v) (simp_all add: add.assoc split: Expression.splits)
next
  case (3 a k es s)
  then show ?case by simp
next
  case (4 s)
  then show ?case by simp
next
  case (5 e es s)
  then show ?case by (simp add: add.assoc)
qed

text \<open>
  C4 (copy detection and instrumentation). The walk turns the tree into the
  instrumented tree of the specification: exactly the writes whose value is a read of
  a different slot get a self-write of that slot around the read, everything else is
  untouched; and it appends the addresses of exactly those writes to \<open>copies\<close>, in the
  order of the traversal.
\<close>

theorem C4_walk_instruments_copies:
  "walk t s =
     (instrument (allocator s) t,
      s\<lparr>allocator := allocator s + length (map ident (filter isCopy (nodes t))),
        copies := copies s @ map ident (filter isCopy (nodes t))\<rparr>)"
  using walk_instrument [of t s] by (simp add: copyWrites_def)

section \<open>Instrumentation in closed form\<close>

lemma addrs_simps [simp]:
  "addrs (GetLocal a i) = [a]"
  "addrs (SetLocal a i v) = addrs v @ [a]"
  "addrs (Other a k es) = concat (map addrs es) @ [a]"
  by (simp_all add: addrs_def[abs_def] map_concat comp_def)

lemma render_cong:
  "(\<And>a. a \<in> set (addrs t) \<Longrightarrow> w a = w' a) \<Longrightarrow> render w \<rho> t = render w' \<rho> t"
proof (induction t)
  case (GetLocal a i)
  then show ?case by simp
next
  case (SetLocal a i v)
  have "render w \<rho> v = render w' \<rho> v"
    using SetLocal by simp
  moreover have "w a = w' a" using SetLocal.prems by simp
  ultimately show ?case by simp
next
  case (Other a k es)
  have "\<And>e. e \<in> set es \<Longrightarrow> render w \<rho> e = render w' \<rho> e"
    using Other by auto
  then show ?case by simp
qed

lemma render_empty [simp]: "render Map.empty Map.empty t = t"
  by (induction t) (simp_all add: map_idI)

lemma wmap_Nil [simp]: "wmap n [] = Map.empty"
  by (simp add: wmap_def)

lemma wmap_single [simp]: "wmap n [a] = [a \<mapsto> n]"
  by (simp add: wmap_def)

lemma wmap_append: "wmap n (xs @ ys) = wmap (n + length xs) ys ++ wmap n xs"
proof -
  have u: "[n ..< n + length (xs @ ys)] =
      [n ..< n + length xs] @ [n + length xs ..< n + length xs + length ys]"
    using upt_add_eq_append [of n "n + length xs" "length ys"]
    by (simp only: length_append add.assoc le_add1)
  have "zip (xs @ ys) ([n ..< n + length xs] @ [n + length xs ..< n + length xs + length ys]) =
      zip xs [n ..< n + length xs] @ zip ys [n + length xs ..< n + length xs + length ys]"
    by (rule zip_append) simp
  then show ?thesis
    unfolding wmap_def u by (simp only: map_of_append)
qed

lemma dom_wmap [simp]: "dom (wmap n cs) = set cs"
  by (simp add: wmap_def dom_map_of_zip)

lemma wmap_None: "a \<notin> set cs \<Longrightarrow> wmap n cs a = None"
  by (metis dom_wmap domIff)

lemma ran_wmap: "wmap n cs a = Some b \<Longrightarrow> n \<le> b \<and> b < n + length cs"
proof -
  assume "wmap n cs a = Some b"
  then have "(a, b) \<in> set (zip cs [n ..< n + length cs])"
    unfolding wmap_def by (rule map_of_SomeD)
  then have "b \<in> set [n ..< n + length cs]" by (rule set_zip_rightD)
  then show ?thesis by simp
qed

lemma wmap_inj:
  assumes "distinct cs" "wmap n cs a = Some b" "wmap n cs a' = Some b"
  shows "a = a'"
proof -
  have d: "distinct (map snd (zip cs [n ..< n + length cs]))" by (simp add: map_snd_zip)
  have "(a, b) \<in> set (zip cs [n ..< n + length cs])" "(a', b) \<in> set (zip cs [n ..< n + length cs])"
    using assms(2,3) unfolding wmap_def by (auto dest: map_of_SomeD)
  moreover from d have "inj_on snd (set (zip cs [n ..< n + length cs]))"
    by (simp only: distinct_map)
  ultimately have "(a, b) = (a', b)"
    using inj_onD [of snd "set (zip cs [n ..< n + length cs])" "(a, b)" "(a', b)"] by simp
  then show ?thesis by simp
qed

lemma copyWrites_subset: "set (copyWrites t) \<subseteq> set (addrs t)"
  by (auto simp: copyWrites_def addrs_def)

lemma instrument_render:
  "distinct (addrs (t::'k Expression)) \<Longrightarrow> instrument n t = render (wmap n (copyWrites t)) Map.empty t"
  and instrument_list_render:
  "distinct (concat (map addrs (ts::'k Expression list))) \<Longrightarrow>
     instrument_list n ts = map (render (wmap n (concat (map copyWrites ts))) Map.empty) ts"
proof (induction n t and n ts rule: instrument_instrument_list.induct)
  case (1 n a i)
  then show ?case by simp
next
  case (2 n a i v)
  show ?case
  proof (cases v)
    case (GetLocal g j)
    then show ?thesis by simp
  next
    case (SetLocal b j u)
    have d: "distinct (addrs v)" "a \<notin> set (addrs v)" using 2(3) by simp_all
    have "a \<notin> set (copyWrites v)" using d copyWrites_subset by blast
    then have "wmap n (copyWrites v) a = None" by (rule wmap_None)
    then show ?thesis using SetLocal 2(1)[OF SetLocal d(1)] by simp
  next
    case (Other b k es)
    have d: "distinct (addrs v)" "a \<notin> set (addrs v)" using 2(3) by simp_all
    have "a \<notin> set (copyWrites v)" using d copyWrites_subset by blast
    then have "wmap n (copyWrites v) a = None" by (rule wmap_None)
    then show ?thesis using Other 2(2)[OF Other d(1)] by simp
  qed
next
  case (3 n a k es)
  have "distinct (concat (map addrs es))" using 3(2) by simp
  from 3(1)[OF this] show ?case by simp
next
  case (4 n)
  then show ?case by simp
next
  case (5 n e es)
  let ?w = "wmap n (copyWrites e @ concat (map copyWrites es))"
  have d: "distinct (addrs e)" "distinct (concat (map addrs es))"
     "set (addrs e) \<inter> set (concat (map addrs es)) = {}"
    using 5(3) by simp_all
  have sub: "set (concat (map copyWrites es)) \<subseteq> set (concat (map addrs es))"
    using copyWrites_subset by fastforce
  have e1: "render ?w Map.empty e = render (wmap n (copyWrites e)) Map.empty e"
  proof (rule render_cong)
    fix a assume "a \<in> set (addrs e)"
    then have "a \<notin> set (concat (map copyWrites es))" using d(3) sub by blast
    then have "wmap (n + length (copyWrites e)) (concat (map copyWrites es)) a = None"
      by (rule wmap_None)
    then show "?w a = wmap n (copyWrites e) a"
      by (simp add: wmap_append map_add_def split: option.splits)
  qed
  have e2: "render ?w Map.empty x = render (wmap (n + length (copyWrites e)) (concat (map copyWrites es))) Map.empty x"
    if "x \<in> set es" for x
  proof (rule render_cong)
    fix a assume "a \<in> set (addrs x)"
    then have "a \<in> set (concat (map addrs es))" using that by auto
    then have "a \<notin> set (copyWrites e)" using d(3) copyWrites_subset by blast
    then have "wmap n (copyWrites e) a = None"
      by (rule wmap_None)
    then show "?w a = wmap (n + length (copyWrites e)) (concat (map copyWrites es)) a"
      by (simp add: wmap_append map_add_def split: option.splits)
  qed
  have "instrument n e = render ?w Map.empty e" using 5(1)[OF d(1)] e1 by simp
  moreover have "instrument_list (n + length (copyWrites e)) es = map (render ?w Map.empty) es"
    using 5(2)[OF d(2)] e2 by simp
  ultimately show ?case by simp
qed

section \<open>Pointers into the closed form\<close>

lemma deref_None_iff:
  "deref p (t::'k Expression) = None \<longleftrightarrow> p \<notin> set (addrs t)"
  and deref_list_None_iff:
  "deref_list p (ts::'k Expression list) = None \<longleftrightarrow> p \<notin> set (concat (map addrs ts))"
  by (induction p t and p ts rule: deref_deref_list.induct) (auto split: option.splits)

lemma deref_in_nodes:
  "deref p (t::'k Expression) = Some x \<Longrightarrow> x \<in> set (nodes t) \<and> ident x = p"
  and deref_list_in_nodes:
  "deref_list p (ts::'k Expression list) = Some x \<Longrightarrow>
     x \<in> set (concat (map nodes ts)) \<and> ident x = p"
  by (induction p t and p ts rule: deref_deref_list.induct)
     (auto split: option.splits if_splits)

lemma nodes_addrs: "x \<in> set (nodes t) \<Longrightarrow> ident x \<in> set (addrs t)"
  by (simp add: addrs_def)

lemma deref_unique:
  "distinct (addrs (t::'k Expression)) \<Longrightarrow> x \<in> set (nodes t) \<Longrightarrow> deref (ident x) t = Some x"
  and deref_list_unique:
  "distinct (concat (map addrs (ts::'k Expression list))) \<Longrightarrow> x \<in> set (concat (map nodes ts)) \<Longrightarrow>
     deref_list (ident x) ts = Some x"
proof (induction "ident x" t and "ident x" ts rule: deref_deref_list.induct)
  case (1 a i)
  then show ?case by auto
next
  case (2 a i v)
  then show ?case by (auto dest: nodes_addrs)
next
  case (3 a k es)
  have "ident x = a \<Longrightarrow> x = Other a k es"
    using 3(2,3) by (auto dest!: nodes_addrs)
  then show ?case using 3 by auto
next
  case 4
  then show ?case by simp
next
  case (5 e es)
  show ?case
  proof (cases "x \<in> set (nodes e)")
    case True
    then show ?thesis using 5 by simp
  next
    case False
    then have xs: "x \<in> set (concat (map nodes es))" using 5(4) by simp
    then have "ident x \<in> set (concat (map addrs es))" by (auto dest: nodes_addrs)
    then have "ident x \<notin> set (addrs e)" using 5(3) by auto
    then have "deref (ident x) e = None" by (simp add: deref_None_iff)
    then show ?thesis using 5 xs by simp
  qed
qed

lemma nodes_child: "SetLocal a i v \<in> set (nodes t) \<Longrightarrow> v \<in> set (nodes t)"
proof (induction t)
  case (GetLocal b j)
  then show ?case by simp
next
  case (SetLocal b j u)
  then show ?case by (cases u) auto
next
  case (Other b k es)
  then show ?case by auto
qed

lemma addrs_render: "set (addrs t) \<subseteq> set (addrs (render w \<rho> t))"
  by (induction t) auto

lemma deref_render:
  "\<forall>a. w a \<noteq> Some p \<Longrightarrow>
     deref p (render w \<rho> (t::'k Expression)) = map_option (render w \<rho>) (deref p t)"
  and deref_list_render:
  "\<forall>a. w a \<noteq> Some p \<Longrightarrow>
     deref_list p (map (render w \<rho>) (ts::'k Expression list)) =
       map_option (render w \<rho>) (deref_list p ts)"
proof (induction p t and p ts rule: deref_deref_list.induct)
  case (1 p a i)
  then show ?case by simp
next
  case (2 p a i v)
  then show ?case by (cases "w a") auto
next
  case (3 p a k es)
  then show ?case by simp
next
  case (4 p)
  then show ?case by simp
next
  case (5 p e es)
  then show ?case by (simp split: option.splits)
qed

lemma deref_render_GetLocal:
  "deref p (render w \<rho> (t::'k Expression)) = Some (GetLocal a i) \<Longrightarrow>
     \<exists>i0. deref p t = Some (GetLocal p i0) \<and> a = p \<and> i = (case \<rho> p of Some d \<Rightarrow> d | None \<Rightarrow> i0)"
  and deref_list_render_GetLocal:
  "deref_list p (map (render w \<rho>) (ts::'k Expression list)) = Some (GetLocal a i) \<Longrightarrow>
     \<exists>i0. deref_list p ts = Some (GetLocal p i0) \<and> a = p \<and> i = (case \<rho> p of Some d \<Rightarrow> d | None \<Rightarrow> i0)"
proof (induction p t and p ts rule: deref_deref_list.induct)
  case (1 p a i)
  then show ?case by (auto split: if_splits)
next
  case (2 p a i v)
  then show ?case by (auto split: if_splits)
next
  case (3 p a k es)
  then show ?case by (auto split: if_splits)
next
  case (4 p)
  then show ?case by simp
next
  case (5 p e es)
  show ?case
  proof (cases "deref p (render w \<rho> e)")
    case None
    then have "p \<notin> set (addrs (render w \<rho> e))" by (simp add: deref_None_iff)
    then have "p \<notin> set (addrs e)" using addrs_render by blast
    then have "deref p e = None" by (simp add: deref_None_iff)
    then show ?thesis using None 5 by simp
  next
    case (Some y)
    then show ?thesis using 5 by auto
  qed
qed

lemma setIndex_render:
  "setIndex r d (render w \<rho> t) = render w (\<rho>(r \<mapsto> d)) t"
  by (induction t) auto

lemma fold_setIndex_render:
  "fold (\<lambda>r. setIndex r D) rs (render w \<rho> t) = render w (renameTo D rs \<rho>) t"
proof (induction rs arbitrary: \<rho>)
  case Nil
  then show ?case by (simp add: renameTo_def)
next
  case (Cons r rs)
  have e: "renameTo D rs (\<rho>(r \<mapsto> D)) = renameTo D (r # rs) \<rho>"
    by (auto simp: renameTo_def)
  have "fold (\<lambda>r. setIndex r D) (r # rs) (render w \<rho> t) =
      fold (\<lambda>r. setIndex r D) rs (render w (\<rho>(r \<mapsto> D)) t)"
    by (simp only: fold_simps setIndex_render)
  also have "\<dots> = render w (renameTo D rs (\<rho>(r \<mapsto> D))) t" by (rule Cons)
  finally show ?case by (simp only: e)
qed

lemma setValue_render:
  assumes "\<forall>x\<in>set (nodes t). ident x = c \<longrightarrow> x = SetLocal c D (GetLocal g j)"
    and "\<forall>a. w a \<noteq> Some c"
  shows "setValue c (render w \<rho> (GetLocal g j)) (render w \<rho> t) = render (\<lambda>a. if a = c then None else w a) \<rho> t"
  using assms
proof (induction t)
  case (GetLocal a i)
  then show ?case by simp
next
  case (SetLocal a i v)
  show ?case
  proof (cases "a = c")
    case True
    then show ?thesis using SetLocal.prems by auto
  next
    case False
    have p: "\<forall>x\<in>set (nodes v). ident x = c \<longrightarrow> x = SetLocal c D (GetLocal g j)"
      using SetLocal.prems(1) by simp
    have "setValue c (render w \<rho> (GetLocal g j)) (render w \<rho> v) =
        render (\<lambda>a. if a = c then None else w a) \<rho> v"
      by (rule SetLocal.IH [OF p SetLocal.prems(2)])
    then show ?thesis using False SetLocal.prems(2) by auto
  qed
next
  case (Other a k es)
  then show ?case by auto
qed

section \<open>One copy, and the loop over the copies\<close>

lemma checkInfluences_Inr:
  "checkInfluences G tr S t rs can = Inr b \<Longrightarrow>
     b = (can \<and> (\<forall>r\<in>set rs. length (getSetses G r) = 1)) \<and>
     (\<forall>r\<in>set rs. deref r t = Some (GetLocal r S) \<and>
        (length (getSetses G r) = 1 \<longrightarrow> hd (getSetses G r) = Some tr))"
proof (induction rs arbitrary: can)
  case Nil
  then show ?case by simp
next
  case (Cons r rs)
  from Cons.prems obtain a i where d: "deref r t = Some (GetLocal a i)"
    by (auto split: option.splits Expression.splits)
  then have a: "a = r" by (auto dest: deref_in_nodes)
  show ?case
  proof (cases "length (getSetses G r) = 1")
    case True
    then have "checkInfluences G tr S t rs can = Inr b" "i = S" "hd (getSetses G r) = Some tr"
      using Cons.prems d by (auto split: if_splits)
    then show ?thesis using Cons.IH [of can] d a True by auto
  next
    case False
    then have "checkInfluences G tr S t rs False = Inr b" "i = S"
      using Cons.prems d by (auto split: if_splits)
    then show ?thesis using Cons.IH [of False] d a False by auto
  qed
qed

lemma checkInfluences_ok:
  "\<forall>r\<in>set rs. deref r t = Some (GetLocal r S) \<and>
        (length (getSetses G r) = 1 \<longrightarrow> hd (getSetses G r) = Some tr) \<Longrightarrow>
   checkInfluences G tr S t rs can = Inr (can \<and> (\<forall>r\<in>set rs. length (getSetses G r) = 1))"
  by (induction rs arbitrary: can) auto

lemma optimizeCopy_render:
  assumes nd: "\<forall>x\<in>set (nodes body). ident x = c \<longrightarrow> x = SetLocal c D (GetLocal g S)"
    and dc: "deref c body = Some (SetLocal c D (GetLocal g S))"
    and SD: "S \<noteq> D"
    and wc: "w c = Some tr"
    and fresh: "\<forall>a b. w a = Some b \<longrightarrow> b \<notin> set (addrs body)"
    and run: "optimizeCopy G c (render w \<rho> body) = Inr out"
  shows "out = render (\<lambda>a. if a = c then None else w a)
                 (if eligible G tr then renameTo D (setInfluences G tr) \<rho> else \<rho>) body"
    and "\<forall>r\<in>set (setInfluences G tr).
           (\<exists>i. deref r body = Some (GetLocal r i) \<and> (case \<rho> r of Some d \<Rightarrow> d | None \<Rightarrow> i) = S) \<and>
           (length (getSetses G r) = 1 \<longrightarrow> hd (getSetses G r) = Some tr)"
proof -
  have cin: "c \<in> set (addrs body)" using dc deref_None_iff [of c body] by auto
  then have cw: "\<forall>a. w a \<noteq> Some c" using fresh by auto
  have dr: "deref c (render w \<rho>' body) =
      Some (SetLocal c D (SetLocal tr S (render w \<rho>' (GetLocal g S))))" for \<rho>'
    using deref_render [OF cw, of \<rho>' body] dc wc SD by simp
  let ?t = "render w \<rho> body"
  from run dr [of \<rho>] obtain can where
    chk: "checkInfluences G tr S ?t (setInfluences G tr) True = Inr can"
    by (auto simp: optimizeCopy_def split: sum.splits)
  from checkInfluences_Inr [OF chk] have can: "can = eligible G tr"
    and all: "\<forall>r\<in>set (setInfluences G tr). deref r ?t = Some (GetLocal r S) \<and>
        (length (getSetses G r) = 1 \<longrightarrow> hd (getSetses G r) = Some tr)"
    by (simp_all add: eligible_def)
  let ?\<rho> = "if eligible G tr then renameTo D (setInfluences G tr) \<rho> else \<rho>"
  have t1: "(if can then fold (\<lambda>r. setIndex r D) (setInfluences G tr) ?t else ?t) = render w ?\<rho> body"
    using can by (simp add: fold_setIndex_render)
  have "out = setValue c (render w ?\<rho> (GetLocal g S)) (render w ?\<rho> body)"
    using run dr [of \<rho>] dr [of ?\<rho>] chk t1
    by (simp add: optimizeCopy_def Let_def del: render.simps)
  then show "out = render (\<lambda>a. if a = c then None else w a) ?\<rho> body"
    using setValue_render [OF nd cw, of ?\<rho>] by simp
  show "\<forall>r\<in>set (setInfluences G tr).
           (\<exists>i. deref r body = Some (GetLocal r i) \<and> (case \<rho> r of Some d \<Rightarrow> d | None \<Rightarrow> i) = S) \<and>
           (length (getSetses G r) = 1 \<longrightarrow> hd (getSetses G r) = Some tr)"
  proof
    fix r assume r: "r \<in> set (setInfluences G tr)"
    with all have "deref r ?t = Some (GetLocal r S)"
      and h: "length (getSetses G r) = 1 \<longrightarrow> hd (getSetses G r) = Some tr" by auto
    from deref_render_GetLocal [OF this(1)] h
    show "(\<exists>i. deref r body = Some (GetLocal r i) \<and> (case \<rho> r of Some d \<Rightarrow> d | None \<Rightarrow> i) = S) \<and>
           (length (getSetses G r) = 1 \<longrightarrow> hd (getSetses G r) = Some tr)" by auto
  qed
qed

lemma isCopyE:
  assumes "isCopy x"
  obtains a D g S where "x = SetLocal a D (GetLocal g S)" "S \<noteq> D"
  using assms by (rule isCopy.elims) auto

lemma optimizeLoop_render:
  assumes "distinct (addrs body)" "distinct cs"
    and "\<forall>c\<in>set cs. \<exists>x. deref c body = Some x \<and> isCopy x"
    and "\<forall>c\<in>set cs. w c \<noteq> None"
    and "\<forall>a b. w a = Some b \<longrightarrow> b \<notin> set (addrs body)"
    and "optimizeLoop G cs (render (w |` set cs) \<rho> body) = Inr out"
  shows "out = render Map.empty (merges G w (dest body) cs \<rho>) body \<and>
    (\<forall>c\<in>set cs. \<forall>r\<in>set (setInfluences G (the (w c))).
        (\<exists>i. deref r body = Some (GetLocal r i)) \<and>
        (length (getSetses G r) = 1 \<longrightarrow> hd (getSetses G r) = Some (the (w c))))"
  using assms(2,3,4,6)
proof (induction cs arbitrary: \<rho>)
  case Nil
  then show ?case by simp
next
  case (Cons c cs)
  let ?w = "w |` set (c # cs)"
  from Cons.prems(4) obtain t' where
    step: "optimizeCopy G c (render ?w \<rho> body) = Inr t'" and
    rest: "optimizeLoop G cs t' = Inr out"
    by (auto split: sum.splits)
  from Cons.prems(2) obtain x where x: "deref c body = Some x" "isCopy x" by auto
  then have "ident x = c" by (auto dest: deref_in_nodes)
  with x(2) obtain D g S where xe: "x = SetLocal c D (GetLocal g S)" "S \<noteq> D"
    by (auto elim: isCopyE)
  from Cons.prems(3) obtain tr where tr: "w c = Some tr" by auto
  have nd: "\<forall>y\<in>set (nodes body). ident y = c \<longrightarrow> y = SetLocal c D (GetLocal g S)"
    using deref_unique [OF assms(1)] x(1) xe(1) by auto
  have fresh: "\<forall>a b. ?w a = Some b \<longrightarrow> b \<notin> set (addrs body)"
    using assms(5) by (auto simp: restrict_map_def split: if_splits)
  have wc: "?w c = Some tr" using tr by simp
  have dc: "deref c body = Some (SetLocal c D (GetLocal g S))" using x(1) xe(1) by simp
  let ?\<rho> = "if eligible G tr then renameTo D (setInfluences G tr) \<rho> else \<rho>"
  have w': "(\<lambda>a. if a = c then None else ?w a) = w |` set cs"
    using Cons.prems(1) by (auto simp: restrict_map_def)
  from optimizeCopy_render [OF nd dc xe(2) wc fresh step]
  have t': "t' = render (w |` set cs) ?\<rho> body"
    and chk: "\<forall>r\<in>set (setInfluences G tr).
           (\<exists>i. deref r body = Some (GetLocal r i)) \<and>
           (length (getSetses G r) = 1 \<longrightarrow> hd (getSetses G r) = Some tr)"
    unfolding w' by auto
  have D: "dest body c = D" using dc by (simp add: dest_def)
  have ih: "out = render Map.empty (merges G w (dest body) cs ?\<rho>) body \<and>
    (\<forall>c\<in>set cs. \<forall>r\<in>set (setInfluences G (the (w c))).
        (\<exists>i. deref r body = Some (GetLocal r i)) \<and>
        (length (getSetses G r) = 1 \<longrightarrow> hd (getSetses G r) = Some (the (w c))))"
    using Cons.IH [of ?\<rho>] Cons.prems(1,2,3) rest t' by simp
  show ?case using ih chk tr D by simp
qed

section \<open>The renaming a whole run performs\<close>

lemma merges_unchanged:
  "\<forall>c\<in>set cs. eligible G (the (w c)) \<longrightarrow> r \<notin> set (setInfluences G (the (w c))) \<Longrightarrow>
   merges G w dst cs \<rho> r = \<rho> r"
  by (induction cs arbitrary: \<rho>) (auto simp: renameTo_def)

lemma merges_renamed:
  assumes "distinct cs" "inj_on w (set cs)"
    and "\<forall>c\<in>set cs. \<forall>r\<in>set (setInfluences G (the (w c))).
           length (getSetses G r) = 1 \<longrightarrow> hd (getSetses G r) = Some (the (w c))"
    and "c \<in> set cs" "eligible G (the (w c))" "r \<in> set (setInfluences G (the (w c)))"
    and "\<forall>c\<in>set cs. w c \<noteq> None"
  shows "merges G w dst cs \<rho> r = Some (dst c)"
  using assms
proof (induction cs arbitrary: \<rho>)
  case Nil
  then show ?case by simp
next
  case (Cons c' cs)
  show ?case
  proof (cases "c = c'")
    case True
    have len: "length (getSetses G r) = 1" using Cons.prems(5,6) by (simp add: eligible_def)
    have "\<forall>d\<in>set cs. eligible G (the (w d)) \<longrightarrow> r \<notin> set (setInfluences G (the (w d)))"
    proof (intro ballI impI notI)
      fix d assume d: "d \<in> set cs" "r \<in> set (setInfluences G (the (w d)))"
      then have "hd (getSetses G r) = Some (the (w d))" using Cons.prems(3) len by auto
      moreover have "hd (getSetses G r) = Some (the (w c))" using Cons.prems(3,4,6) len by auto
      ultimately have "the (w d) = the (w c)" by simp
      moreover have "w d \<noteq> None" "w c \<noteq> None" using Cons.prems(7,4) d(1) by auto
      ultimately have "w d = w c" by auto
      moreover have "d \<in> set (c' # cs)" using d(1) by simp
      ultimately have "d = c" using Cons.prems(4) by (rule inj_onD [OF Cons.prems(2)])
      then show False using Cons.prems(1) True d(1) by simp
    qed
    from merges_unchanged [OF this] show ?thesis
      using True Cons.prems(5,6) by (simp add: renameTo_def)
  next
    case False
    then show ?thesis using Cons by auto
  qed
qed

lemma distinct_copyWrites: "distinct (addrs t) \<Longrightarrow> distinct (copyWrites t)"
  by (simp add: addrs_def copyWrites_def distinct_map_filter)

lemma copyWrites_deref:
  assumes "distinct (addrs t)" "c \<in> set (copyWrites t)"
  shows "\<exists>x. deref c t = Some x \<and> isCopy x"
proof -
  from assms(2) obtain x where "x \<in> set (nodes t)" "isCopy x" "ident x = c"
    by (auto simp: copyWrites_def)
  then show ?thesis using deref_unique [OF assms(1)] by auto
qed

lemma wmap_fresh:
  assumes "\<forall>a\<in>set (addrs t). a < n"
  shows "\<forall>a b. wmap n cs a = Some b \<longrightarrow> b \<notin> set (addrs t)"
  using assms by (auto dest!: ran_wmap)

lemma wmap_inj_on: "distinct cs \<Longrightarrow> inj_on (wmap n cs) (set cs)"
proof (rule inj_onI)
  fix x y assume d: "distinct cs" and "x \<in> set cs" "y \<in> set cs" and e: "wmap n cs x = wmap n cs y"
  then obtain b where "wmap n cs x = Some b" by (metis dom_wmap domD)
  then show "x = y" using e wmap_inj [OF d] by metis
qed

lemma wmap_defined: "c \<in> set cs \<Longrightarrow> wmap n cs c \<noteq> None"
  by (metis dom_wmap domIff)

lemma pass_result:
  assumes wf: "distinct (addrs func)" "\<forall>a\<in>set (addrs func). a < n"
    and run: "doWalkFunction lg func \<lparr>allocator = n, copies = []\<rparr> = Inr (out, s')"
  shows "out = render Map.empty (renaming lg n func) func"
    and "s' = \<lparr>allocator = n + length (copyWrites func), copies = copyWrites func\<rparr>"
    and "\<forall>c\<in>set (copyWrites func).
          \<forall>r\<in>set (setInfluences (lg (instrument n func)) (the (wmap n (copyWrites func) c))).
            (\<exists>i. deref r func = Some (GetLocal r i)) \<and>
            (length (getSetses (lg (instrument n func)) r) = 1 \<longrightarrow>
               hd (getSetses (lg (instrument n func)) r) = Some (the (wmap n (copyWrites func) c)))"
proof -
  let ?cs = "copyWrites func" and ?w = "wmap n (copyWrites func)"
  let ?G = "lg (instrument n func)"
  have w: "walk func \<lparr>allocator = n, copies = []\<rparr> =
      (instrument n func, \<lparr>allocator = n + length ?cs, copies = ?cs\<rparr>)"
    by (simp add: walk_instrument)
  from run w have loop: "optimizeLoop ?G ?cs (instrument n func) = Inr out"
    and s': "s' = \<lparr>allocator = n + length ?cs, copies = ?cs\<rparr>"
    by (auto simp: doWalkFunction_def optimizeCopies_def split: sum.splits)
  have r: "?w |` set ?cs = ?w"
    by (rule ext) (simp add: restrict_map_def wmap_None)
  have loop': "optimizeLoop ?G ?cs (render (?w |` set ?cs) Map.empty func) = Inr out"
    using loop instrument_render [OF wf(1), of n] r by simp
  have a3: "\<forall>c\<in>set ?cs. \<exists>x. deref c func = Some x \<and> isCopy x"
    using copyWrites_deref [OF wf(1)] by blast
  have a4: "\<forall>c\<in>set ?cs. ?w c \<noteq> None" using wmap_defined by blast
  note res = optimizeLoop_render [OF wf(1) distinct_copyWrites [OF wf(1)] a3 a4
      wmap_fresh [OF wf(2)] loop']
  from res show "out = render Map.empty (renaming lg n func) func"
    by (simp add: renaming_def)
  from s' show "s' = \<lparr>allocator = n + length ?cs, copies = ?cs\<rparr>" .
  from res show "\<forall>c\<in>set ?cs. \<forall>r\<in>set (setInfluences ?G (the (?w c))).
            (\<exists>i. deref r func = Some (GetLocal r i)) \<and>
            (length (getSetses ?G r) = 1 \<longrightarrow> hd (getSetses ?G r) = Some (the (?w c)))"
    by blast
qed

lemma eraseReads_render [simp]: "eraseReads (render Map.empty \<rho> t) = eraseReads t"
  by (induction t) auto

lemma addrs_eraseReads: "addrs (eraseReads t) = addrs t"
  by (induction t) (auto simp: map_concat comp_def intro!: arg_cong [where f = concat])

lemma walk_fresh_instance:
  "walk func \<lparr>allocator = n, copies = []\<rparr> = (t, s) \<Longrightarrow>
     t = instrument n func \<and> copies s = copyWrites func"
  by (auto simp: walk_instrument)

lemma instrumented_copy:
  assumes wf: "distinct (addrs func)" "\<forall>a\<in>set (addrs func). a < n"
    and c: "c \<in> set (copyWrites func)"
    and d: "deref c (instrument n func) = Some (SetLocal c D (SetLocal tr S v))"
  shows "wmap n (copyWrites func) c = Some tr"
    and "\<exists>g. v = GetLocal g S \<and> deref c func = Some (SetLocal c D (GetLocal g S))"
    and "S \<noteq> D"
proof -
  let ?w = "wmap n (copyWrites func)"
  from copyWrites_deref [OF wf(1) c] obtain x where x: "deref c func = Some x" "isCopy x" by auto
  then have "ident x = c" by (auto dest: deref_in_nodes)
  with x(2) obtain D' g S' where xe: "x = SetLocal c D' (GetLocal g S')" "S' \<noteq> D'"
    by (auto elim: isCopyE)
  have "c \<in> set (addrs func)" using c copyWrites_subset by blast
  then have "\<forall>a. ?w a \<noteq> Some c" using wmap_fresh [OF wf(2)] by auto
  from deref_render [OF this, of Map.empty func] x(1) xe wmap_defined [OF c, of n]
  have "deref c (instrument n func) = Some (SetLocal c D' (SetLocal (the (?w c)) S' (GetLocal g S')))"
    by (simp add: instrument_render [OF wf(1)])
  with d have e: "D = D'" "tr = the (?w c)" "S = S'" "v = GetLocal g S'" by auto
  show "?w c = Some tr" using e(2) wmap_defined [OF c, of n] by auto
  show "\<exists>g. v = GetLocal g S \<and> deref c func = Some (SetLocal c D (GetLocal g S))"
    using e x(1) xe(1) by simp
  show "S \<noteq> D" using e xe(2) by simp
qed

lemma deref_out:
  "deref r (render Map.empty \<rho> t) = map_option (render Map.empty \<rho>) (deref r t)"
  by (rule deref_render) simp

lemma influenced_final:
  assumes wf: "distinct (addrs func)" "\<forall>a\<in>set (addrs func). a < n"
    and run: "doWalkFunction lg func \<lparr>allocator = n, copies = []\<rparr> = Inr (out, s')"
    and c: "c \<in> set (copyWrites func)"
    and w: "wmap n (copyWrites func) c = Some tr"
    and r: "r \<in> set (setInfluences (lg (instrument n func)) tr)"
  shows "renaming lg n func r =
           (if eligible (lg (instrument n func)) tr then Some (dest func c) else None)"
    and "\<exists>i. deref r func = Some (GetLocal r i)"
proof -
  let ?cs = "copyWrites func" and ?w = "wmap n (copyWrites func)"
  let ?G = "lg (instrument n func)"
  note a2 = pass_result(3) [OF wf run]
  have dcs: "distinct ?cs" by (rule distinct_copyWrites [OF wf(1)])
  have inj: "inj_on ?w (set ?cs)" by (rule wmap_inj_on [OF dcs])
  have def: "\<forall>c\<in>set ?cs. ?w c \<noteq> None" using wmap_defined by blast
  have a2': "\<forall>c\<in>set ?cs. \<forall>r\<in>set (setInfluences ?G (the (?w c))).
           length (getSetses ?G r) = 1 \<longrightarrow> hd (getSetses ?G r) = Some (the (?w c))"
    using a2 by blast
  show "\<exists>i. deref r func = Some (GetLocal r i)" using a2 c w r by force
  show "renaming lg n func r = (if eligible ?G tr then Some (dest func c) else None)"
  proof (cases "eligible ?G tr")
    case True
    then show ?thesis
      using merges_renamed [OF dcs inj a2' c _ _ def, of r "dest func" Map.empty] w r
      by (simp add: renaming_def)
  next
    case False
    have "\<forall>d\<in>set ?cs. eligible ?G (the (?w d)) \<longrightarrow> r \<notin> set (setInfluences ?G (the (?w d)))"
    proof (intro ballI impI notI)
      fix d assume d: "d \<in> set ?cs" "eligible ?G (the (?w d))"
        "r \<in> set (setInfluences ?G (the (?w d)))"
      then have len: "length (getSetses ?G r) = 1" by (simp add: eligible_def)
      then have "hd (getSetses ?G r) = Some (the (?w d))" using a2' d by blast
      moreover have "hd (getSetses ?G r) = Some tr" using a2' c w r len by force
      ultimately have "the (?w d) = tr" by simp
      then show False using d(2) False by simp
    qed
    from merges_unchanged [OF this] show ?thesis using False by (simp add: renaming_def)
  qed
qed

lemma instrumented_copy_ex:
  assumes wf: "distinct (addrs func)" "\<forall>a\<in>set (addrs func). a < n"
    and c: "c \<in> set (copyWrites func)"
  shows "\<exists>tr S v. deref c (instrument n func) = Some (SetLocal c (dest func c) (SetLocal tr S v))"
proof -
  let ?w = "wmap n (copyWrites func)"
  from copyWrites_deref [OF wf(1) c] obtain x where x: "deref c func = Some x" "isCopy x" by auto
  then have "ident x = c" by (auto dest: deref_in_nodes)
  with x(2) obtain D' g S' where xe: "x = SetLocal c D' (GetLocal g S')" "S' \<noteq> D'"
    by (auto elim: isCopyE)
  have "c \<in> set (addrs func)" using c copyWrites_subset by blast
  then have "\<forall>a. ?w a \<noteq> Some c" using wmap_fresh [OF wf(2)] by auto
  from deref_render [OF this, of Map.empty func] x(1) xe wmap_defined [OF c, of n]
  have "deref c (instrument n func) = Some (SetLocal c D' (SetLocal (the (?w c)) S' (GetLocal g S')))"
    by (simp add: instrument_render [OF wf(1)])
  moreover have "dest func c = D'" using x(1) xe(1) by (simp add: dest_def)
  ultimately show ?thesis by blast
qed

lemma copy_read_deref:
  assumes "distinct (addrs func)" "deref c func = Some (SetLocal c D (GetLocal g S))"
  shows "deref g func = Some (GetLocal g S)"
proof -
  have "SetLocal c D (GetLocal g S) \<in> set (nodes func)"
    using assms(2) by (auto dest: deref_in_nodes)
  then have "GetLocal g S \<in> set (nodes func)" by (rule nodes_child)
  from deref_unique [OF assms(1) this] show ?thesis by simp
qed

lemma read_final:
  assumes wf: "distinct (addrs func)" "\<forall>a\<in>set (addrs func). a < n"
    and walk: "walk func \<lparr>allocator = n, copies = []\<rparr> = (t, s)"
    and run: "doWalkFunction lg func \<lparr>allocator = n, copies = []\<rparr> = Inr (out, s')"
    and g: "deref g func = Some (GetLocal g S)"
  shows "\<exists>i. deref g out = Some (GetLocal g i) \<and>
     (\<forall>d\<in>set (copies s). \<forall>D' tr' S' v'.
        deref d t = Some (SetLocal d D' (SetLocal tr' S' v')) \<and>
        g \<in> set (setInfluences (lg t) tr') \<and>
        (\<forall>r\<in>set (setInfluences (lg t) tr'). length (getSetses (lg t) r) = 1) \<longrightarrow>
        i = D') \<and>
     ((\<forall>d\<in>set (copies s). \<forall>D' tr' S' v'.
        deref d t = Some (SetLocal d D' (SetLocal tr' S' v')) \<and>
        g \<in> set (setInfluences (lg t) tr') \<longrightarrow>
        (\<exists>r\<in>set (setInfluences (lg t) tr'). length (getSetses (lg t) r) \<noteq> 1)) \<longrightarrow>
      i = S)"
proof -
  have t: "t = instrument n func" and cs: "copies s = copyWrites func"
    using walk_fresh_instance [OF walk] by simp_all
  let ?w = "wmap n (copyWrites func)"
  let ?i = "case renaming lg n func g of Some d \<Rightarrow> d | None \<Rightarrow> S"
  note out = pass_result(1) [OF wf run]
  have 1: "deref g out = Some (GetLocal g ?i)" using out g by (simp add: deref_out)
  have 2: "?i = D'"
    if d: "d \<in> set (copies s)"
      and h: "deref d t = Some (SetLocal d D' (SetLocal tr' S' v')) \<and>
        g \<in> set (setInfluences (lg t) tr') \<and>
        (\<forall>r\<in>set (setInfluences (lg t) tr'). length (getSetses (lg t) r) = 1)"
    for d D' tr' S' v'
  proof -
    have d': "d \<in> set (copyWrites func)" using d cs by simp
    have dd: "deref d (instrument n func) = Some (SetLocal d D' (SetLocal tr' S' v'))"
      using h t by simp
    have w: "?w d = Some tr'" by (rule instrumented_copy(1) [OF wf d' dd])
    from instrumented_copy(2) [OF wf d' dd] have D: "dest func d = D'"
      by (auto simp: dest_def)
    have el: "eligible (lg (instrument n func)) tr'" using h t by (simp add: eligible_def)
    have gi: "g \<in> set (setInfluences (lg (instrument n func)) tr')" using h t by simp
    from influenced_final(1) [OF wf run d' w gi] el D show ?thesis by simp
  qed
  have 3: "?i = S"
    if h: "\<forall>d\<in>set (copies s). \<forall>D' tr' S' v'.
        deref d t = Some (SetLocal d D' (SetLocal tr' S' v')) \<and>
        g \<in> set (setInfluences (lg t) tr') \<longrightarrow>
        (\<exists>r\<in>set (setInfluences (lg t) tr'). length (getSetses (lg t) r) \<noteq> 1)"
  proof -
    have "\<forall>d\<in>set (copyWrites func). eligible (lg t) (the (?w d)) \<longrightarrow>
        g \<notin> set (setInfluences (lg t) (the (?w d)))"
    proof (intro ballI impI notI)
      fix d assume d: "d \<in> set (copyWrites func)" and el: "eligible (lg t) (the (?w d))"
        and gi: "g \<in> set (setInfluences (lg t) (the (?w d)))"
      from instrumented_copy_ex [OF wf d] obtain tr' S' v' where
        dd: "deref d t = Some (SetLocal d (dest func d) (SetLocal tr' S' v'))" using t by auto
      have w: "?w d = Some tr'" using instrumented_copy(1) [OF wf d] dd t by simp
      have "d \<in> set (copies s)" using d cs by simp
      moreover have "g \<in> set (setInfluences (lg t) tr')" using gi w by simp
      ultimately have "\<exists>r\<in>set (setInfluences (lg t) tr'). length (getSetses (lg t) r) \<noteq> 1"
        using h dd by blast
      then show False using el w by (simp add: eligible_def)
    qed
    from merges_unchanged [OF this, of "dest func" Map.empty]
    have "renaming lg n func g = None" using t by (simp add: renaming_def)
    then show ?thesis by simp
  qed
  from 1 2 3 show ?thesis by blast
qed

section \<open>The trees of the loop, and the log of the run\<close>

lemma trees_hd: "\<exists>ts. trees G cs t = t # ts"
  by (cases cs) auto

lemma trees_last:
  "optimizeLoop G cs t = Inr out \<Longrightarrow>
     last (trees G cs t) = out \<and> length (trees G cs t) = Suc (length cs)"
proof (induction cs arbitrary: t)
  case Nil
  then show ?case by simp
next
  case (Cons c cs)
  from Cons.prems obtain t' where s: "optimizeCopy G c t = Inr t'" "optimizeLoop G cs t' = Inr out"
    by (auto split: sum.splits)
  from trees_hd [of G cs t'] obtain ts where "trees G cs t' = t' # ts" by auto
  then show ?case using Cons.IH [OF s(2)] s(1) by simp
qed

lemma changes_render:
  assumes "distinct (addrs body)" "distinct cs"
    and "\<forall>c\<in>set cs. \<exists>x. deref c body = Some x \<and> isCopy x"
    and "\<forall>c\<in>set cs. w c \<noteq> None"
    and "\<forall>a b. w a = Some b \<longrightarrow> b \<notin> set (addrs body)"
    and "optimizeLoop G cs (render (w |` set cs) \<rho> body) = Inr out"
    and "deref r body = Some (GetLocal r i)"
    and "\<forall>c\<in>set cs. \<forall>d\<in>set cs.
           c \<noteq> d \<and> eligible G (the (w c)) \<and> r \<in> set (setInfluences G (the (w c))) \<longrightarrow>
           \<not> (eligible G (the (w d)) \<and> r \<in> set (setInfluences G (the (w d))))"
  shows "changes r (trees G cs (render (w |` set cs) \<rho> body)) \<le> 1 \<and>
    ((\<forall>c\<in>set cs. eligible G (the (w c)) \<longrightarrow> r \<notin> set (setInfluences G (the (w c)))) \<longrightarrow>
     changes r (trees G cs (render (w |` set cs) \<rho> body)) = 0)"
  using assms(2,3,4,6,8)
proof (induction cs arbitrary: \<rho>)
  case Nil
  then show ?case by simp
next
  case (Cons c cs)
  let ?w = "w |` set (c # cs)"
  let ?t = "render ?w \<rho> body"
  from Cons.prems(4) obtain t' where
    step: "optimizeCopy G c ?t = Inr t'" and
    rest: "optimizeLoop G cs t' = Inr out"
    by (auto split: sum.splits)
  from Cons.prems(2) obtain x where x: "deref c body = Some x" "isCopy x" by auto
  then have "ident x = c" by (auto dest: deref_in_nodes)
  with x(2) obtain D g S where xe: "x = SetLocal c D (GetLocal g S)" "S \<noteq> D"
    by (auto elim: isCopyE)
  from Cons.prems(3) obtain tr where tr: "w c = Some tr" by auto
  have nd: "\<forall>y\<in>set (nodes body). ident y = c \<longrightarrow> y = SetLocal c D (GetLocal g S)"
    using deref_unique [OF assms(1)] x(1) xe(1) by auto
  have fresh: "\<forall>a b. ?w a = Some b \<longrightarrow> b \<notin> set (addrs body)"
    using assms(5) by (auto simp: restrict_map_def split: if_splits)
  have fresh': "\<forall>a b. (w |` set cs) a = Some b \<longrightarrow> b \<notin> set (addrs body)"
    using assms(5) by (auto simp: restrict_map_def split: if_splits)
  have wc: "?w c = Some tr" using tr by simp
  have dc: "deref c body = Some (SetLocal c D (GetLocal g S))" using x(1) xe(1) by simp
  let ?\<rho> = "if eligible G tr then renameTo D (setInfluences G tr) \<rho> else \<rho>"
  have w': "(\<lambda>a. if a = c then None else ?w a) = w |` set cs"
    using Cons.prems(1) by (auto simp: restrict_map_def)
  from optimizeCopy_render(1) [OF nd dc xe(2) wc fresh step]
  have t': "t' = render (w |` set cs) ?\<rho> body" unfolding w' by auto
  have rin: "r \<in> set (addrs body)" using assms(7) deref_None_iff [of r body] by auto
  have r1: "\<forall>a. ?w a \<noteq> Some r" using fresh rin by auto
  have r2: "\<forall>a. (w |` set cs) a \<noteq> Some r" using fresh' rin by auto
  have d0: "deref r ?t = Some (GetLocal r (case \<rho> r of Some d \<Rightarrow> d | None \<Rightarrow> i))"
    using deref_render [OF r1, of \<rho> body] assms(7) by simp
  have d1: "deref r t' = Some (GetLocal r (case ?\<rho> r of Some d \<Rightarrow> d | None \<Rightarrow> i))"
    using deref_render [OF r2, of ?\<rho> body] assms(7) t' by simp
  from trees_hd [of G cs t'] obtain ts where ts: "trees G cs t' = t' # ts" by auto
  have ch: "changes r (trees G (c # cs) ?t) =
      (if deref r t' \<noteq> deref r ?t then 1 else 0) + changes r (trees G cs t')"
    using step ts by simp
  have p1: "distinct cs" using Cons.prems(1) by simp
  have p2: "\<forall>c\<in>set cs. \<exists>x. deref c body = Some x \<and> isCopy x" using Cons.prems(2) by simp
  have p3: "\<forall>c\<in>set cs. w c \<noteq> None" using Cons.prems(3) by simp
  have p4: "optimizeLoop G cs (render (w |` set cs) ?\<rho> body) = Inr out" using rest t' by simp
  have p5: "\<forall>c\<in>set cs. \<forall>d\<in>set cs.
           c \<noteq> d \<and> eligible G (the (w c)) \<and> r \<in> set (setInfluences G (the (w c))) \<longrightarrow>
           \<not> (eligible G (the (w d)) \<and> r \<in> set (setInfluences G (the (w d))))"
  proof (intro ballI)
    fix a b assume "a \<in> set cs" "b \<in> set cs"
    then have ab: "a \<in> set (c # cs)" "b \<in> set (c # cs)" by simp_all
    show "a \<noteq> b \<and> eligible G (the (w a)) \<and> r \<in> set (setInfluences G (the (w a))) \<longrightarrow>
           \<not> (eligible G (the (w b)) \<and> r \<in> set (setInfluences G (the (w b))))"
      by (rule Cons.prems(5) [THEN bspec, OF ab(1), THEN bspec, OF ab(2)])
  qed
  note IH = Cons.IH [OF p1 p2 p3 p4 p5]
  have ih1: "changes r (trees G cs t') \<le> 1"
    and ih2: "(\<forall>c\<in>set cs. eligible G (the (w c)) \<longrightarrow> r \<notin> set (setInfluences G (the (w c)))) \<longrightarrow>
     changes r (trees G cs t') = 0"
    unfolding t' by (rule IH [THEN conjunct1], rule IH [THEN conjunct2])
  show ?case
  proof (cases "eligible G tr \<and> r \<in> set (setInfluences G tr)")
    case True
    have "\<forall>d\<in>set cs. eligible G (the (w d)) \<longrightarrow> r \<notin> set (setInfluences G (the (w d)))"
    proof (intro ballI impI notI)
      fix d assume d: "d \<in> set cs" "eligible G (the (w d))" "r \<in> set (setInfluences G (the (w d)))"
      have cd: "c \<in> set (c # cs)" "d \<in> set (c # cs)" using d(1) by simp_all
      have "c \<noteq> d \<and> eligible G (the (w c)) \<and> r \<in> set (setInfluences G (the (w c)))"
        using True tr Cons.prems(1) d(1) by auto
      with Cons.prems(5) [THEN bspec, OF cd(1), THEN bspec, OF cd(2)]
      have "\<not> (eligible G (the (w d)) \<and> r \<in> set (setInfluences G (the (w d))))" by (rule mp)
      then show False using d(2,3) by simp
    qed
    with ih2 have "changes r (trees G cs t') = 0" by (rule mp)
    then have "changes r (trees G (c # cs) ?t) \<le> 1" using ch by simp
    moreover have "\<not> (\<forall>c\<in>set (c # cs). eligible G (the (w c)) \<longrightarrow>
        r \<notin> set (setInfluences G (the (w c))))"
      using True tr by simp
    ultimately show ?thesis by blast
  next
    case False
    then have "?\<rho> r = \<rho> r" by (auto simp: renameTo_def)
    then have "deref r t' = deref r ?t" using d0 d1 by simp
    then have eq: "changes r (trees G (c # cs) ?t) = changes r (trees G cs t')" using ch by simp
    have "(\<forall>c\<in>set (c # cs). eligible G (the (w c)) \<longrightarrow> r \<notin> set (setInfluences G (the (w c)))) \<longrightarrow>
        (\<forall>c\<in>set cs. eligible G (the (w c)) \<longrightarrow> r \<notin> set (setInfluences G (the (w c))))"
      by simp
    with ih1 ih2 show ?thesis unfolding eq by blast
  qed
qed

lemma optimizeLoop_log_fst: "fst (optimizeLoop_log G cs t log) = optimizeLoop G cs t"
  by (induction cs arbitrary: t log) (auto split: sum.splits)

lemma optimizeLoop_log_snd:
  "\<exists>k. snd (optimizeLoop_log G cs t log) = log @ map ProcessCopy (take k cs)"
proof (induction cs arbitrary: t log)
  case Nil
  then show ?case by simp
next
  case (Cons c cs)
  show ?case
  proof (cases "optimizeCopy G c t")
    case (Inl e)
    have "snd (optimizeLoop_log G (c # cs) t log) = log @ map ProcessCopy (take 1 (c # cs))"
      using Inl by simp
    then show ?thesis by blast
  next
    case (Inr t')
    from Cons.IH [of t' "log @ [ProcessCopy c]"] obtain k where
      "snd (optimizeLoop_log G cs t' (log @ [ProcessCopy c])) =
         (log @ [ProcessCopy c]) @ map ProcessCopy (take k cs)" by blast
    then have "snd (optimizeLoop_log G (c # cs) t log) =
        log @ map ProcessCopy (take (Suc k) (c # cs))"
      using Inr by simp
    then show ?thesis by blast
  qed
qed

lemma optimizeLoop_log_done:
  "optimizeLoop G cs t = Inr out \<Longrightarrow>
     snd (optimizeLoop_log G cs t log) = log @ map ProcessCopy cs"
  by (induction cs arbitrary: t log) (auto split: sum.splits)

section \<open>Soundness, completeness and all-or-nothing\<close>

text \<open>
  C2 (soundness of merge). Let the pass run to its end on a function whose nodes have
  distinct addresses, all below the next address of the arena. For every recorded copy
  \<open>c\<close>, with self-write \<open>tr\<close> in the instrumented tree \<open>t\<close>: if some read in the
  influence set of \<open>tr\<close> has a reaching-definition set whose size is not 1, then every
  read in that influence set is in the output exactly the node it was in the input,
  so none of them has had its slot changed, by this copy or by any other.
\<close>

theorem C2_ineligible_copy_renames_nothing:
  assumes "distinct (addrs func)" and "\<forall>a\<in>set (addrs func). a < n"
    and "walk func \<lparr>allocator = n, copies = []\<rparr> = (t, s)"
    and "doWalkFunction lg func \<lparr>allocator = n, copies = []\<rparr> = Inr (out, s')"
    and "c \<in> set (copies s)"
    and "deref c t = Some (SetLocal c D (SetLocal tr S v))"
    and "\<exists>r\<in>set (setInfluences (lg t) tr). length (getSetses (lg t) r) \<noteq> 1"
  shows "\<forall>r\<in>set (setInfluences (lg t) tr). deref r out = deref r func"
proof
  fix r assume r: "r \<in> set (setInfluences (lg t) tr)"
  have t: "t = instrument n func" and cs: "copies s = copyWrites func"
    using walk_fresh_instance [OF assms(3)] by simp_all
  have c: "c \<in> set (copyWrites func)" using assms(5) cs by simp
  have w: "wmap n (copyWrites func) c = Some tr"
    using instrumented_copy(1) [OF assms(1,2) c] assms(6) t by simp
  have ne: "\<not> eligible (lg (instrument n func)) tr"
    using assms(7) t by (auto simp: eligible_def)
  from influenced_final [OF assms(1,2,4) c w] r t ne
  obtain i where "renaming lg n func r = None" "deref r func = Some (GetLocal r i)" by auto
  then show "deref r out = deref r func"
    using pass_result(1) [OF assms(1,2,4)] by (simp add: deref_out)
qed

text \<open>The theorem at work on scenario 3, where the copy is skipped.\<close>

theorem C2_witness:
  "doWalkFunction (\<lambda>t. graph3) scenario3 \<lparr>allocator = 11, copies = []\<rparr> =
     Inr (scenario3, \<lparr>allocator = 12, copies = [1]\<rparr>) \<and>
   setInfluences graph3 11 = [9] \<and> length (getSetses graph3 9) = 2 \<and>
   deref 9 scenario3 = Some (GetLocal 9 1)"
proof -
  have h1: "distinct (addrs scenario3)" by code_simp
  have h2: "\<forall>a\<in>set (addrs scenario3). a < 11" by code_simp
  have h3: "walk scenario3 \<lparr>allocator = 11, copies = []\<rparr> =
      (scenario3_instrumented, \<lparr>allocator = 12, copies = [1]\<rparr>)" by code_simp
  have h4: "doWalkFunction (\<lambda>t. graph3) scenario3 \<lparr>allocator = 11, copies = []\<rparr> =
     Inr (scenario3, \<lparr>allocator = 12, copies = [1]\<rparr>)" by code_simp
  have h5: "1 \<in> set (copies \<lparr>allocator = 12, copies = [1]\<rparr>)" by simp
  have h6: "deref 1 scenario3_instrumented = Some (SetLocal 1 0 (SetLocal 11 1 (GetLocal 2 1)))"
    by code_simp
  have g: "setInfluences graph3 11 = [9]" by code_simp
  have l: "length (getSetses graph3 9) = 2" by code_simp
  have h7: "\<exists>r\<in>set (setInfluences graph3 11). length (getSetses graph3 r) \<noteq> 1"
    by code_simp
  have d: "deref 9 scenario3 = Some (GetLocal 9 1)" by code_simp
  from C2_ineligible_copy_renames_nothing [of scenario3 11 scenario3_instrumented _ "\<lambda>t. graph3",
      OF h1 h2 h3 h4 h5 h6 h7]
  have "\<forall>r\<in>set (setInfluences graph3 11). deref r scenario3 = deref r scenario3" .
  with h4 g l d show ?thesis by (intro conjI)
qed

text \<open>
  C3 as stated does not hold: what is left need not be a copy. In \<open>x = y; x = y\<close> the
  self-write of the second copy influences no read, so the second copy is eligible;
  but its own read is influenced by the self-write of the first copy and is renamed to
  \<open>x\<close>. The second copy is \<open>x := read(x)\<close> in the output, a write whose value reads
  the slot it writes.
\<close>

theorem C3_counterexample:
  "walk sameCopies \<lparr>allocator = 5, copies = []\<rparr> =
     (sameCopies_instrumented, \<lparr>allocator = 7, copies = [1, 3]\<rparr>) \<and>
   doWalkFunction straightLineGraph sameCopies \<lparr>allocator = 5, copies = []\<rparr> =
     Inr (sameCopies_merged, \<lparr>allocator = 7, copies = [1, 3]\<rparr>) \<and>
   deref 3 sameCopies_instrumented = Some (SetLocal 3 0 (SetLocal 6 1 (GetLocal 4 1))) \<and>
   setInfluences (straightLineGraph sameCopies_instrumented) 6 = [] \<and>
   deref 3 sameCopies_merged = Some (SetLocal 3 0 (GetLocal 4 0)) \<and>
   \<not> isCopy (SetLocal 3 0 (GetLocal 4 0))"
  by code_simp

text \<open>
  C3 as amended (completeness of merge). Let the pass run to its end on a function
  whose nodes have distinct addresses, all below the next address of the arena. If
  every read in the influence set of the self-write \<open>tr\<close> of a recorded copy
  \<open>D := read(S)\<close> has a reaching-definition set of size exactly 1, then in the output
  every read of that influence set reads \<open>D\<close>; the self-write is no longer in the
  tree; and the copy is a write of \<open>D\<close> whose value is the original read node. That
  read reads the destination of the eligible copy whose self-write influences it,
  and reads \<open>S\<close> when no eligible copy's self-write influences it.
\<close>

theorem C3_eligible_copy_renames_all:
  assumes "distinct (addrs func)" and "\<forall>a\<in>set (addrs func). a < n"
    and "walk func \<lparr>allocator = n, copies = []\<rparr> = (t, s)"
    and "doWalkFunction lg func \<lparr>allocator = n, copies = []\<rparr> = Inr (out, s')"
    and "c \<in> set (copies s)"
    and "deref c t = Some (SetLocal c D (SetLocal tr S v))"
    and "\<forall>r\<in>set (setInfluences (lg t) tr). length (getSetses (lg t) r) = 1"
  shows "(\<forall>r\<in>set (setInfluences (lg t) tr). deref r out = Some (GetLocal r D)) \<and>
    tr \<notin> set (addrs out) \<and>
    (\<exists>g i. v = GetLocal g S \<and> deref c func = Some (SetLocal c D (GetLocal g S)) \<and>
       deref c out = Some (SetLocal c D (GetLocal g i)) \<and>
       (\<forall>d\<in>set (copies s). \<forall>D' tr' S' v'.
          deref d t = Some (SetLocal d D' (SetLocal tr' S' v')) \<and>
          g \<in> set (setInfluences (lg t) tr') \<and>
          (\<forall>r\<in>set (setInfluences (lg t) tr'). length (getSetses (lg t) r) = 1) \<longrightarrow>
          i = D') \<and>
       ((\<forall>d\<in>set (copies s). \<forall>D' tr' S' v'.
          deref d t = Some (SetLocal d D' (SetLocal tr' S' v')) \<and>
          g \<in> set (setInfluences (lg t) tr') \<longrightarrow>
          (\<exists>r\<in>set (setInfluences (lg t) tr'). length (getSetses (lg t) r) \<noteq> 1)) \<longrightarrow>
        i = S))"
proof -
  have t: "t = instrument n func" and cs: "copies s = copyWrites func"
    using walk_fresh_instance [OF assms(3)] by simp_all
  have c: "c \<in> set (copyWrites func)" using assms(5) cs by simp
  have w: "wmap n (copyWrites func) c = Some tr"
    using instrumented_copy(1) [OF assms(1,2) c] assms(6) t by simp
  from instrumented_copy(2) [OF assms(1,2) c] assms(6) t
  obtain g where g: "v = GetLocal g S" "deref c func = Some (SetLocal c D (GetLocal g S))" by auto
  have el: "eligible (lg (instrument n func)) tr"
    using assms(7) t by (auto simp: eligible_def)
  have D: "dest func c = D" using g(2) by (simp add: dest_def)
  note out = pass_result(1) [OF assms(1,2,4)]
  have A: "\<forall>r\<in>set (setInfluences (lg t) tr). deref r out = Some (GetLocal r D)"
  proof
    fix r assume r: "r \<in> set (setInfluences (lg t) tr)"
    from influenced_final [OF assms(1,2,4) c w] r t el D
    obtain i where "renaming lg n func r = Some D" "deref r func = Some (GetLocal r i)" by auto
    then show "deref r out = Some (GetLocal r D)" using out by (simp add: deref_out)
  qed
  have "addrs (eraseReads out) = addrs (eraseReads func)" using out by simp
  then have a: "addrs out = addrs func" by (simp add: addrs_eraseReads)
  have "n \<le> tr" using w by (auto dest: ran_wmap)
  then have B: "tr \<notin> set (addrs out)" using a assms(2) by auto
  have gf: "deref g func = Some (GetLocal g S)" by (rule copy_read_deref [OF assms(1) g(2)])
  from read_final [OF assms(1,2,3,4) gf] obtain i where
    i: "deref g out = Some (GetLocal g i)"
     "\<forall>d\<in>set (copies s). \<forall>D' tr' S' v'.
          deref d t = Some (SetLocal d D' (SetLocal tr' S' v')) \<and>
          g \<in> set (setInfluences (lg t) tr') \<and>
          (\<forall>r\<in>set (setInfluences (lg t) tr'). length (getSetses (lg t) r) = 1) \<longrightarrow>
          i = D'"
     "(\<forall>d\<in>set (copies s). \<forall>D' tr' S' v'.
          deref d t = Some (SetLocal d D' (SetLocal tr' S' v')) \<and>
          g \<in> set (setInfluences (lg t) tr') \<longrightarrow>
          (\<exists>r\<in>set (setInfluences (lg t) tr'). length (getSetses (lg t) r) \<noteq> 1)) \<longrightarrow>
        i = S"
    by blast
  have "deref c out = Some (SetLocal c D (GetLocal g (case renaming lg n func g of Some d \<Rightarrow> d | None \<Rightarrow> S)))"
    using out g(2) by (simp add: deref_out)
  moreover have "deref g out = Some (GetLocal g (case renaming lg n func g of Some d \<Rightarrow> d | None \<Rightarrow> S))"
    using out gf by (simp add: deref_out)
  ultimately have co: "deref c out = Some (SetLocal c D (GetLocal g i))" using i(1) by simp
  from A B g co i(2,3) show ?thesis by blast
qed

text \<open>
  The theorem at work on \<open>z = y; x = y; y\<close>, on the second copy: the last read is
  renamed to \<open>x\<close>, and the copy's own read, renamed by the first copy, reads \<open>z\<close>.
\<close>

theorem C3_witness:
  "doWalkFunction straightLineGraph chained \<lparr>allocator = 6, copies = []\<rparr> =
     Inr (chained_merged, \<lparr>allocator = 8, copies = [1, 3]\<rparr>) \<and>
   setInfluences (straightLineGraph chained_instrumented) 7 = [5] \<and>
   deref 5 chained_merged = Some (GetLocal 5 0) \<and>
   7 \<notin> set (addrs chained_merged) \<and>
   deref 3 chained_merged = Some (SetLocal 3 0 (GetLocal 4 2))"
proof -
  let ?G = "straightLineGraph chained_instrumented"
  let ?s = "\<lparr>allocator = 8, copies = [1, 3]\<rparr>"
  have h1: "distinct (addrs chained)" by code_simp
  have h2: "\<forall>a\<in>set (addrs chained). a < 6" by code_simp
  have h3: "walk chained \<lparr>allocator = 6, copies = []\<rparr> = (chained_instrumented, ?s)"
    by code_simp
  have h4: "doWalkFunction straightLineGraph chained \<lparr>allocator = 6, copies = []\<rparr> =
     Inr (chained_merged, ?s)" by code_simp
  have h5: "3 \<in> set (copies ?s)" and c1: "1 \<in> set (copies ?s)" by simp_all
  have h6: "deref 3 chained_instrumented = Some (SetLocal 3 0 (SetLocal 7 1 (GetLocal 4 1)))"
    by code_simp
  have d1: "deref 1 chained_instrumented = Some (SetLocal 1 2 (SetLocal 6 1 (GetLocal 2 1)))"
    by code_simp
  have g: "setInfluences ?G 7 = [5]" by code_simp
  have g1: "4 \<in> set (setInfluences ?G 6)" by code_simp
  have e1: "\<forall>r\<in>set (setInfluences ?G 6). length (getSetses ?G r) = 1" by code_simp
  have h7: "\<forall>r\<in>set (setInfluences ?G 7). length (getSetses ?G r) = 1" by code_simp
  note res = C3_eligible_copy_renames_all [where lg = straightLineGraph, OF h1 h2 h3 h4 h5 h6 h7]
  from res have "\<forall>r\<in>set (setInfluences ?G 7). deref r chained_merged = Some (GetLocal r 0)"
    by (rule conjunct1)
  then have a: "deref 5 chained_merged = Some (GetLocal 5 0)" by (simp only: g) simp
  from res have b: "7 \<notin> set (addrs chained_merged)" by blast
  from res obtain g' i where
    v: "GetLocal 4 1 = (GetLocal g' 1 :: op Expression)" and
    o: "deref 3 chained_merged = Some (SetLocal 3 0 (GetLocal g' i))" and
    A: "\<forall>d\<in>set (copies ?s). \<forall>D' tr' S' v'.
          deref d chained_instrumented = Some (SetLocal d D' (SetLocal tr' S' v')) \<and>
          g' \<in> set (setInfluences ?G tr') \<and>
          (\<forall>r\<in>set (setInfluences ?G tr'). length (getSetses ?G r) = 1) \<longrightarrow>
          i = D'"
    by blast
  from v have g': "g' = 4" by simp
  from A c1 d1 g1 e1 have "i = 2" unfolding g' by blast
  with o g' have c: "deref 3 chained_merged = Some (SetLocal 3 0 (GetLocal 4 2))" by simp
  show ?thesis by (rule conjI [OF h4 conjI [OF g conjI [OF a conjI [OF b c]]]])
qed

text \<open>
  C6 (all-or-nothing). Under the same conditions, for every recorded copy with
  destination \<open>D\<close> and self-write \<open>tr\<close>: either every read influenced by \<open>tr\<close> reads
  \<open>D\<close> in the output, or every read influenced by \<open>tr\<close> is in the output the node it
  was in the input. No copy renames only some of its reads.
\<close>

theorem C6_all_or_nothing:
  assumes "distinct (addrs func)" and "\<forall>a\<in>set (addrs func). a < n"
    and "walk func \<lparr>allocator = n, copies = []\<rparr> = (t, s)"
    and "doWalkFunction lg func \<lparr>allocator = n, copies = []\<rparr> = Inr (out, s')"
    and "c \<in> set (copies s)"
    and "deref c t = Some (SetLocal c D (SetLocal tr S v))"
  shows "(\<forall>r\<in>set (setInfluences (lg t) tr). deref r out = Some (GetLocal r D)) \<or>
         (\<forall>r\<in>set (setInfluences (lg t) tr). deref r out = deref r func)"
proof -
  have t: "t = instrument n func" and cs: "copies s = copyWrites func"
    using walk_fresh_instance [OF assms(3)] by simp_all
  have c: "c \<in> set (copyWrites func)" using assms(5) cs by simp
  have w: "wmap n (copyWrites func) c = Some tr"
    using instrumented_copy(1) [OF assms(1,2) c] assms(6) t by simp
  from instrumented_copy(2) [OF assms(1,2) c] assms(6) t
  have D: "dest func c = D" by (auto simp: dest_def)
  note out = pass_result(1) [OF assms(1,2,4)]
  show ?thesis
  proof (cases "eligible (lg t) tr")
    case True
    have "deref r out = Some (GetLocal r D)" if r: "r \<in> set (setInfluences (lg t) tr)" for r
    proof -
      from influenced_final [OF assms(1,2,4) c w] r t True D
      obtain i where "renaming lg n func r = Some D" "deref r func = Some (GetLocal r i)" by auto
      then show ?thesis using out by (simp add: deref_out)
    qed
    then show ?thesis by blast
  next
    case False
    have "deref r out = deref r func" if r: "r \<in> set (setInfluences (lg t) tr)" for r
    proof -
      from influenced_final [OF assms(1,2,4) c w] r t False
      obtain i where "renaming lg n func r = None" "deref r func = Some (GetLocal r i)" by auto
      then show ?thesis using out by (simp add: deref_out)
    qed
    then show ?thesis by blast
  qed
qed

text \<open>The theorem at work on scenario 2.\<close>

theorem C6_witness:
  "doWalkFunction straightLineGraph scenario2 \<lparr>allocator = 9, copies = []\<rparr> =
     Inr (scenario2_merged, \<lparr>allocator = 10, copies = [1]\<rparr>) \<and>
   (deref 5 scenario2_merged = Some (GetLocal 5 0) \<or>
    deref 5 scenario2_merged = deref 5 scenario2)"
proof -
  let ?G = "straightLineGraph scenario2_instrumented"
  have h1: "distinct (addrs scenario2)" by code_simp
  have h2: "\<forall>a\<in>set (addrs scenario2). a < 9" by code_simp
  have h3: "walk scenario2 \<lparr>allocator = 9, copies = []\<rparr> =
      (scenario2_instrumented, \<lparr>allocator = 10, copies = [1]\<rparr>)" by code_simp
  have h4: "doWalkFunction straightLineGraph scenario2 \<lparr>allocator = 9, copies = []\<rparr> =
     Inr (scenario2_merged, \<lparr>allocator = 10, copies = [1]\<rparr>)" by code_simp
  have h5: "1 \<in> set (copies \<lparr>allocator = 10, copies = [1]\<rparr>)" by simp
  have h6: "deref 1 scenario2_instrumented = Some (SetLocal 1 0 (SetLocal 9 1 (GetLocal 2 1)))"
    by code_simp
  have g: "setInfluences ?G 9 = [5]" by code_simp
  from C6_all_or_nothing [OF h1 h2 h3 h4 h5 h6]
  have "(\<forall>r\<in>set (setInfluences ?G 9). deref r scenario2_merged = Some (GetLocal r 0)) \<or>
        (\<forall>r\<in>set (setInfluences ?G 9). deref r scenario2_merged = deref r scenario2)" .
  then have "deref 5 scenario2_merged = Some (GetLocal 5 0) \<or>
    deref 5 scenario2_merged = deref 5 scenario2" by (simp only: g) simp
  with h4 show ?thesis by (intro conjI)
qed

section \<open>Clean input, the single snapshot and the frame\<close>

lemma instrument_noop:
  "\<forall>x\<in>set (nodes (t::'k Expression)). \<not> isCopy x \<Longrightarrow> instrument n t = t"
  and instrument_list_noop:
  "\<forall>x\<in>set (concat (map nodes (ts::'k Expression list))). \<not> isCopy x \<Longrightarrow> instrument_list n ts = ts"
  by (induction n t and n ts rule: instrument_instrument_list.induct)
     (auto split: Expression.splits)

text \<open>
  C8 (idempotence on clean input). On a function that has no write whose value is a
  read of a different slot, the pass returns normally with the tree, the arena and
  the (empty) copy list all unchanged, whatever the graph.
\<close>

theorem C8_clean_input_unchanged:
  assumes "\<forall>x\<in>set (nodes func). \<not> isCopy x"
  shows "doWalkFunction lg func \<lparr>allocator = n, copies = []\<rparr> =
           Inr (func, \<lparr>allocator = n, copies = []\<rparr>)"
proof -
  have "copyWrites func = []" using assms by (simp add: copyWrites_def)
  then show ?thesis
    using instrument_noop [OF assms, of n]
    by (simp add: doWalkFunction_def optimizeCopies_def walk_instrument)
qed

text \<open>The theorem at work on \<open>x = 7; x = x\<close>.\<close>

theorem C8_witness:
  "doWalkFunction straightLineGraph noCopies \<lparr>allocator = 5, copies = []\<rparr> =
     Inr (noCopies, \<lparr>allocator = 5, copies = []\<rparr>)"
proof -
  have h: "\<forall>x\<in>set (nodes noCopies). \<not> isCopy x" by code_simp
  from C8_clean_input_unchanged [OF h] show ?thesis .
qed

text \<open>
  C9 (single snapshot). Let \<open>t\<close> be the instrumented tree the walk returns. The run
  consults the graph constructor at \<open>t\<close> only: constructors that agree on \<open>t\<close> give
  the same run, whatever they answer for the trees that arise while copies are
  rewritten. In the log of the run there is one construction of a LocalGraph, from
  \<open>t\<close>, and it comes first, before any copy is processed; a run that reaches its end
  then processes every recorded copy in order. At the moment of the construction
  every recorded copy is still wrapped in its self-write. And every copy is decided
  against that one graph: if all the reads that \<open>lg t\<close> says its self-write influences
  have one reaching definition in \<open>lg t\<close>, they all read its destination in the output,
  and otherwise they are all unchanged, also for copies processed after others have
  been rewritten.
\<close>

theorem C9_single_snapshot:
  assumes "walk func s0 = (t, s)"
  shows "(\<forall>lg'. lg' t = lg t \<longrightarrow> doWalkFunction lg' func s0 = doWalkFunction lg func s0) \<and>
    fst (doWalkFunction_log lg func s0 []) = doWalkFunction lg func s0 \<and>
    (\<exists>k. snd (doWalkFunction_log lg func s0 []) =
           BuildGraph t # map ProcessCopy (take k (copies s))) \<and>
    (\<forall>n out s'.
       s0 = \<lparr>allocator = n, copies = []\<rparr> \<and> distinct (addrs func) \<and>
       (\<forall>a\<in>set (addrs func). a < n) \<and> doWalkFunction lg func s0 = Inr (out, s') \<longrightarrow>
       snd (doWalkFunction_log lg func s0 []) = BuildGraph t # map ProcessCopy (copies s) \<and>
       (\<forall>c\<in>set (copies s). \<exists>D tr S v. deref c t = Some (SetLocal c D (SetLocal tr S v))) \<and>
       (\<forall>c\<in>set (copies s). \<forall>D tr S v.
          deref c t = Some (SetLocal c D (SetLocal tr S v)) \<longrightarrow>
          ((\<forall>r\<in>set (setInfluences (lg t) tr). length (getSetses (lg t) r) = 1) \<longrightarrow>
           (\<forall>r\<in>set (setInfluences (lg t) tr). deref r out = Some (GetLocal r D))) \<and>
          ((\<exists>r\<in>set (setInfluences (lg t) tr). length (getSetses (lg t) r) \<noteq> 1) \<longrightarrow>
           (\<forall>r\<in>set (setInfluences (lg t) tr). deref r out = deref r func))))"
proof -
  have 1: "\<forall>lg'. lg' t = lg t \<longrightarrow> doWalkFunction lg' func s0 = doWalkFunction lg func s0"
    using assms by (simp add: doWalkFunction_def optimizeCopies_def)
  have run: "doWalkFunction lg func s0 =
      (case optimizeLoop (lg t) (copies s) t of Inl e \<Rightarrow> Inl e | Inr out \<Rightarrow> Inr (out, s))"
    using assms by (simp add: doWalkFunction_def optimizeCopies_def)
  have lg: "doWalkFunction_log lg func s0 [] =
      (case optimizeLoop_log (lg t) (copies s) t [BuildGraph t] of
         (Inl e, l) \<Rightarrow> (Inl e, l) | (Inr out, l) \<Rightarrow> (Inr (out, s), l))"
    using assms by (simp add: doWalkFunction_log_def optimizeCopies_log_def)
  have sn: "snd (doWalkFunction_log lg func s0 []) =
      snd (optimizeLoop_log (lg t) (copies s) t [BuildGraph t])"
    unfolding lg by (auto split: prod.splits sum.splits)
  have 2: "fst (doWalkFunction_log lg func s0 []) = doWalkFunction lg func s0"
    unfolding lg run using optimizeLoop_log_fst [of "lg t" "copies s" t "[BuildGraph t]"]
    by (auto split: prod.splits sum.splits)
  from optimizeLoop_log_snd [of "lg t" "copies s" t "[BuildGraph t]"]
  have 3: "\<exists>k. snd (doWalkFunction_log lg func s0 []) =
           BuildGraph t # map ProcessCopy (take k (copies s))"
    unfolding sn by simp
  have 4: "snd (doWalkFunction_log lg func s0 []) = BuildGraph t # map ProcessCopy (copies s) \<and>
       (\<forall>c\<in>set (copies s). \<exists>D tr S v. deref c t = Some (SetLocal c D (SetLocal tr S v))) \<and>
       (\<forall>c\<in>set (copies s). \<forall>D tr S v.
          deref c t = Some (SetLocal c D (SetLocal tr S v)) \<longrightarrow>
          ((\<forall>r\<in>set (setInfluences (lg t) tr). length (getSetses (lg t) r) = 1) \<longrightarrow>
           (\<forall>r\<in>set (setInfluences (lg t) tr). deref r out = Some (GetLocal r D))) \<and>
          ((\<exists>r\<in>set (setInfluences (lg t) tr). length (getSetses (lg t) r) \<noteq> 1) \<longrightarrow>
           (\<forall>r\<in>set (setInfluences (lg t) tr). deref r out = deref r func)))"
    if h: "s0 = \<lparr>allocator = n, copies = []\<rparr> \<and> distinct (addrs func) \<and>
       (\<forall>a\<in>set (addrs func). a < n) \<and> doWalkFunction lg func s0 = Inr (out, s')"
    for n out s'
  proof -
    from h have wf: "distinct (addrs func)" "\<forall>a\<in>set (addrs func). a < n"
      and w: "walk func \<lparr>allocator = n, copies = []\<rparr> = (t, s)"
      and r: "doWalkFunction lg func \<lparr>allocator = n, copies = []\<rparr> = Inr (out, s')"
      using assms by auto
    have t: "t = instrument n func" and cs: "copies s = copyWrites func"
      using walk_fresh_instance [OF w] by simp_all
    from r run h have "optimizeLoop (lg t) (copies s) t = Inr out"
      by (auto split: sum.splits)
    from optimizeLoop_log_done [OF this, of "[BuildGraph t]"]
    have a: "snd (doWalkFunction_log lg func s0 []) = BuildGraph t # map ProcessCopy (copies s)"
      unfolding sn by simp
    have b: "\<forall>c\<in>set (copies s). \<exists>D tr S v. deref c t = Some (SetLocal c D (SetLocal tr S v))"
      using instrumented_copy_ex [OF wf] t cs by metis
    have c: "\<forall>c\<in>set (copies s). \<forall>D tr S v.
          deref c t = Some (SetLocal c D (SetLocal tr S v)) \<longrightarrow>
          ((\<forall>r\<in>set (setInfluences (lg t) tr). length (getSetses (lg t) r) = 1) \<longrightarrow>
           (\<forall>r\<in>set (setInfluences (lg t) tr). deref r out = Some (GetLocal r D))) \<and>
          ((\<exists>r\<in>set (setInfluences (lg t) tr). length (getSetses (lg t) r) \<noteq> 1) \<longrightarrow>
           (\<forall>r\<in>set (setInfluences (lg t) tr). deref r out = deref r func))"
    proof (intro ballI allI impI conjI)
      fix c D tr S v r
      assume c: "c \<in> set (copies s)" and d: "deref c t = Some (SetLocal c D (SetLocal tr S v))"
        and ri: "r \<in> set (setInfluences (lg t) tr)"
      have c': "c \<in> set (copyWrites func)" using c cs by simp
      have wc: "wmap n (copyWrites func) c = Some tr"
        using instrumented_copy(1) [OF wf c'] d t by simp
      from instrumented_copy(2) [OF wf c'] d t have D: "dest func c = D"
        by (auto simp: dest_def)
      have ri': "r \<in> set (setInfluences (lg (instrument n func)) tr)" using ri t by simp
      note fin = influenced_final [OF wf r c' wc ri']
      note out = pass_result(1) [OF wf r]
      {
        assume "\<forall>r\<in>set (setInfluences (lg t) tr). length (getSetses (lg t) r) = 1"
        then have "eligible (lg (instrument n func)) tr" using t by (simp add: eligible_def)
        with fin D obtain i where "renaming lg n func r = Some D"
          "deref r func = Some (GetLocal r i)" by auto
        then show "deref r out = Some (GetLocal r D)" using out by (simp add: deref_out)
      }
      {
        assume "\<exists>r\<in>set (setInfluences (lg t) tr). length (getSetses (lg t) r) \<noteq> 1"
        then have "\<not> eligible (lg (instrument n func)) tr" using t by (auto simp: eligible_def)
        with fin obtain i where "renaming lg n func r = None"
          "deref r func = Some (GetLocal r i)" by auto
        then show "deref r out = deref r func" using out by (simp add: deref_out)
      }
    qed
    from a b c show ?thesis by (rule conjI [OF _ conjI])
  qed
  from 1 2 3 4 show ?thesis by blast
qed

text \<open>
  The theorem at work on \<open>z = y; x = y; y\<close>, with a second constructor that answers
  differently on every tree but the instrumented one.
\<close>

theorem C9_witness:
  "doWalkFunction (\<lambda>t. if t = chained_instrumented then straightLineGraph t else graph3)
      chained \<lparr>allocator = 6, copies = []\<rparr> =
   doWalkFunction straightLineGraph chained \<lparr>allocator = 6, copies = []\<rparr> \<and>
   snd (doWalkFunction_log straightLineGraph chained \<lparr>allocator = 6, copies = []\<rparr> []) =
     [BuildGraph chained_instrumented, ProcessCopy 1, ProcessCopy 3] \<and>
   deref 4 chained_merged = Some (GetLocal 4 2) \<and>
   deref 5 chained_merged = Some (GetLocal 5 0)"
proof -
  let ?G = "straightLineGraph chained_instrumented"
  let ?init = "\<lparr>allocator = 6, copies = []\<rparr>"
  let ?s = "\<lparr>allocator = 8, copies = [1, 3]\<rparr>"
  have h1: "distinct (addrs chained)" by code_simp
  have h2: "\<forall>a\<in>set (addrs chained). a < 6" by code_simp
  have h3: "walk chained ?init = (chained_instrumented, ?s)" by code_simp
  have h4: "doWalkFunction straightLineGraph chained ?init = Inr (chained_merged, ?s)"
    by code_simp
  have c3: "3 \<in> set (copies ?s)" and c1: "1 \<in> set (copies ?s)" by simp_all
  have d3: "deref 3 chained_instrumented = Some (SetLocal 3 0 (SetLocal 7 1 (GetLocal 4 1)))"
    by code_simp
  have d1: "deref 1 chained_instrumented = Some (SetLocal 1 2 (SetLocal 6 1 (GetLocal 2 1)))"
    by code_simp
  have g6: "setInfluences ?G 6 = [4]" and g7: "setInfluences ?G 7 = [5]" by code_simp+
  have e6: "\<forall>r\<in>set (setInfluences ?G 6). length (getSetses ?G r) = 1"
    and e7: "\<forall>r\<in>set (setInfluences ?G 7). length (getSetses ?G r) = 1" by code_simp+
  note res = C9_single_snapshot [where lg = straightLineGraph, OF h3]
  have same: "(\<lambda>t. if t = chained_instrumented then straightLineGraph t else graph3)
      chained_instrumented = ?G" by simp
  have a: "doWalkFunction
        (\<lambda>t. if t = chained_instrumented then straightLineGraph t else graph3) chained ?init =
      doWalkFunction straightLineGraph chained ?init"
    using res [THEN conjunct1,
        THEN spec [of _ "\<lambda>t. if t = chained_instrumented then straightLineGraph t else graph3"]]
    by simp
  have pre: "?init = \<lparr>allocator = 6, copies = []\<rparr> \<and> distinct (addrs chained) \<and>
       (\<forall>a\<in>set (addrs chained). a < 6) \<and>
       doWalkFunction straightLineGraph chained ?init = Inr (chained_merged, ?s)"
    using h1 h2 h4 by simp
  note both = res [THEN conjunct2, THEN conjunct2, THEN conjunct2,
      THEN spec, THEN spec, THEN spec, THEN mp, OF pre]
  note l = both [THEN conjunct1]
  note dec = both [THEN conjunct2, THEN conjunct2]
  have b: "snd (doWalkFunction_log straightLineGraph chained ?init []) =
     [BuildGraph chained_instrumented, ProcessCopy 1, ProcessCopy 3]"
    using l by (simp only: MergeLocals.simps list.map)
  have i4: "4 \<in> set (setInfluences ?G 6)" and i5: "5 \<in> set (setInfluences ?G 7)"
    by (simp_all only: g6 g7 list.set insertI1)
  have c: "deref 4 chained_merged = Some (GetLocal 4 2)"
    by (rule dec [THEN bspec, OF c1, THEN spec, THEN spec, THEN spec, THEN spec, THEN mp,
        OF d1, THEN conjunct1, THEN mp, OF e6, THEN bspec, OF i4])
  have d: "deref 5 chained_merged = Some (GetLocal 5 0)"
    by (rule dec [THEN bspec, OF c3, THEN spec, THEN spec, THEN spec, THEN spec, THEN mp,
        OF d3, THEN conjunct1, THEN mp, OF e7, THEN bspec, OF i5])
  show ?thesis by (rule conjI [OF a conjI [OF b conjI [OF c d]]])
qed

text \<open>
  C10 (frame). When the pass runs to its end, output and input have the same shape:
  the same nodes at the same addresses in the same positions, every write with its
  destination slot, only the slots of reads may differ. Along the trees the loop goes
  through, from the instrumented tree to the output, every read of the function
  changes at most once. And a read with a single reaching definition that is
  influenced by the self-write of one recorded copy is in the influence set of no
  other copy's self-write.
\<close>

theorem C10_frame:
  assumes "distinct (addrs func)" and "\<forall>a\<in>set (addrs func). a < n"
    and "walk func \<lparr>allocator = n, copies = []\<rparr> = (t, s)"
    and "doWalkFunction lg func \<lparr>allocator = n, copies = []\<rparr> = Inr (out, s')"
  shows "eraseReads out = eraseReads func \<and>
    length (trees (lg t) (copies s) t) = Suc (length (copies s)) \<and>
    hd (trees (lg t) (copies s) t) = t \<and>
    last (trees (lg t) (copies s) t) = out \<and>
    (\<forall>r i. deref r func = Some (GetLocal r i) \<longrightarrow>
       changes r (trees (lg t) (copies s) t) \<le> 1) \<and>
    (\<forall>c\<in>set (copies s). \<forall>d\<in>set (copies s). \<forall>D tr S v D' tr' S' v'.
       c \<noteq> d \<and>
       deref c t = Some (SetLocal c D (SetLocal tr S v)) \<and>
       deref d t = Some (SetLocal d D' (SetLocal tr' S' v')) \<longrightarrow>
       (\<forall>r\<in>set (setInfluences (lg t) tr).
          length (getSetses (lg t) r) = 1 \<longrightarrow> r \<notin> set (setInfluences (lg t) tr')))"
proof -
  let ?cs = "copyWrites func" and ?w = "wmap n (copyWrites func)"
  have t: "t = instrument n func" and cs: "copies s = ?cs"
    using walk_fresh_instance [OF assms(3)] by simp_all
  have w: "walk func \<lparr>allocator = n, copies = []\<rparr> =
      (instrument n func, \<lparr>allocator = n + length ?cs, copies = ?cs\<rparr>)"
    by (simp add: walk_instrument)
  from assms(4) w have loop: "optimizeLoop (lg t) ?cs t = Inr out"
    using t by (auto simp: doWalkFunction_def optimizeCopies_def split: sum.splits)
  have r: "?w |` set ?cs = ?w"
    by (rule ext) (simp add: restrict_map_def wmap_None)
  have tr: "t = render (?w |` set ?cs) Map.empty func"
    using t instrument_render [OF assms(1), of n] r by simp
  have a3: "\<forall>c\<in>set ?cs. \<exists>x. deref c func = Some x \<and> isCopy x"
    using copyWrites_deref [OF assms(1)] by blast
  have a4: "\<forall>c\<in>set ?cs. ?w c \<noteq> None" using wmap_defined by blast
  have dcs: "distinct ?cs" by (rule distinct_copyWrites [OF assms(1)])
  note a2 = pass_result(3) [OF assms(1,2,4)]
  have a2': "\<forall>c\<in>set ?cs. \<forall>r\<in>set (setInfluences (lg t) (the (?w c))).
           length (getSetses (lg t) r) = 1 \<longrightarrow> hd (getSetses (lg t) r) = Some (the (?w c))"
    using a2 unfolding t by blast
  have e: "eraseReads out = eraseReads func"
    using pass_result(1) [OF assms(1,2,4)] by simp
  note tl = trees_last [OF loop]
  from trees_hd [of "lg t" ?cs t] have h: "hd (trees (lg t) ?cs t) = t" by auto
  have once: "changes r (trees (lg t) ?cs t) \<le> 1" if rd: "deref r func = Some (GetLocal r i)" for r i
  proof -
    have U: "\<forall>c\<in>set ?cs. \<forall>d\<in>set ?cs.
           c \<noteq> d \<and> eligible (lg t) (the (?w c)) \<and> r \<in> set (setInfluences (lg t) (the (?w c))) \<longrightarrow>
           \<not> (eligible (lg t) (the (?w d)) \<and> r \<in> set (setInfluences (lg t) (the (?w d))))"
    proof (intro ballI impI notI)
      fix c d assume c: "c \<in> set ?cs" and d: "d \<in> set ?cs"
        and h1: "c \<noteq> d \<and> eligible (lg t) (the (?w c)) \<and> r \<in> set (setInfluences (lg t) (the (?w c)))"
        and h2: "eligible (lg t) (the (?w d)) \<and> r \<in> set (setInfluences (lg t) (the (?w d)))"
      have len: "length (getSetses (lg t) r) = 1" using h1 by (simp add: eligible_def)
      have rc: "r \<in> set (setInfluences (lg t) (the (?w c)))" using h1 by simp
      have rd': "r \<in> set (setInfluences (lg t) (the (?w d)))" using h2 by simp
      have "hd (getSetses (lg t) r) = Some (the (?w c))"
        by (rule a2' [rule_format, OF c rc len])
      moreover have "hd (getSetses (lg t) r) = Some (the (?w d))"
        by (rule a2' [rule_format, OF d rd' len])
      ultimately have "the (?w c) = the (?w d)" by simp
      moreover have "?w c \<noteq> None" "?w d \<noteq> None" using a4 c d by auto
      ultimately have "?w c = ?w d" by auto
      then have "c = d" using c d by (rule inj_onD [OF wmap_inj_on [OF dcs]])
      then show False using h1 by simp
    qed
    define G where "G = lg t"
    have lG: "optimizeLoop G ?cs t = Inr out" unfolding G_def by (rule loop)
    have l: "optimizeLoop G ?cs (render (?w |` set ?cs) Map.empty func) = Inr out"
      using lG tr by simp
    from changes_render [OF assms(1) dcs a3 a4 wmap_fresh [OF assms(2)] l rd U [folded G_def]]
    have "changes r (trees G ?cs (render (?w |` set ?cs) Map.empty func)) \<le> 1" by (rule conjunct1)
    then have "changes r (trees G ?cs t) \<le> 1" using tr by simp
    then show ?thesis unfolding G_def .
  qed
  have old: "\<forall>c\<in>set (copies s). \<forall>d\<in>set (copies s). \<forall>D tr S v D' tr' S' v'.
       c \<noteq> d \<and>
       deref c t = Some (SetLocal c D (SetLocal tr S v)) \<and>
       deref d t = Some (SetLocal d D' (SetLocal tr' S' v')) \<longrightarrow>
       (\<forall>r\<in>set (setInfluences (lg t) tr).
          length (getSetses (lg t) r) = 1 \<longrightarrow> r \<notin> set (setInfluences (lg t) tr'))"
  proof (intro ballI allI impI notI)
    fix c d D tr S v D' tr' S' v' r
    assume c: "c \<in> set (copies s)" and d: "d \<in> set (copies s)"
      and h: "c \<noteq> d \<and> deref c t = Some (SetLocal c D (SetLocal tr S v)) \<and>
         deref d t = Some (SetLocal d D' (SetLocal tr' S' v'))"
      and r: "r \<in> set (setInfluences (lg t) tr)" "length (getSetses (lg t) r) = 1"
         "r \<in> set (setInfluences (lg t) tr')"
    have c': "c \<in> set ?cs" and d': "d \<in> set ?cs" using c d cs by simp_all
    have wc: "?w c = Some tr" using instrumented_copy(1) [OF assms(1,2) c'] h t by simp
    have wd: "?w d = Some tr'" using instrumented_copy(1) [OF assms(1,2) d'] h t by simp
    have rc: "r \<in> set (setInfluences (lg t) (the (?w c)))" using r(1) wc by simp
    have rd': "r \<in> set (setInfluences (lg t) (the (?w d)))" using r(3) wd by simp
    have "hd (getSetses (lg t) r) = Some tr"
      using a2' [rule_format, OF c' rc r(2)] wc by simp
    moreover have "hd (getSetses (lg t) r) = Some tr'"
      using a2' [rule_format, OF d' rd' r(2)] wd by simp
    ultimately have "tr = tr'" by simp
    then have "c = d" using wmap_inj [OF dcs wc] wd by simp
    then show False using h by simp
  qed
  have o: "\<forall>r i. deref r func = Some (GetLocal r i) \<longrightarrow>
       changes r (trees (lg t) (copies s) t) \<le> 1"
    using once unfolding cs by blast
  from tl have l1: "length (trees (lg t) (copies s) t) = Suc (length (copies s))"
    and l2: "last (trees (lg t) (copies s) t) = out" unfolding cs by simp_all
  from h have l3: "hd (trees (lg t) (copies s) t) = t" unfolding cs .
  show ?thesis
    by (rule conjI [OF e conjI [OF l1 conjI [OF l3 conjI [OF l2 conjI [OF o old]]]]])
qed

text \<open>
  The theorem at work on \<open>z = y; x = y; y\<close>, a function with two copies.
\<close>

theorem C10_witness:
  "doWalkFunction straightLineGraph chained \<lparr>allocator = 6, copies = []\<rparr> =
     Inr (chained_merged, \<lparr>allocator = 8, copies = [1, 3]\<rparr>) \<and>
   eraseReads chained_merged = eraseReads chained \<and>
   last (trees (straightLineGraph chained_instrumented) [1, 3] chained_instrumented) =
     chained_merged \<and>
   changes 4 (trees (straightLineGraph chained_instrumented) [1, 3] chained_instrumented) \<le> 1 \<and>
   changes 5 (trees (straightLineGraph chained_instrumented) [1, 3] chained_instrumented) \<le> 1 \<and>
   4 \<in> set (setInfluences (straightLineGraph chained_instrumented) 6) \<and>
   4 \<notin> set (setInfluences (straightLineGraph chained_instrumented) 7)"
proof -
  let ?G = "straightLineGraph chained_instrumented"
  let ?s = "\<lparr>allocator = 8, copies = [1, 3]\<rparr>"
  have h1: "distinct (addrs chained)" by code_simp
  have h2: "\<forall>a\<in>set (addrs chained). a < 6" by code_simp
  have h3: "walk chained \<lparr>allocator = 6, copies = []\<rparr> = (chained_instrumented, ?s)"
    by code_simp
  have h4: "doWalkFunction straightLineGraph chained \<lparr>allocator = 6, copies = []\<rparr> =
     Inr (chained_merged, ?s)" by code_simp
  have c: "1 \<in> set (copies ?s)" and d: "3 \<in> set (copies ?s)" by simp_all
  have dc: "deref 1 chained_instrumented = Some (SetLocal 1 2 (SetLocal 6 1 (GetLocal 2 1)))"
    by code_simp
  have dd: "deref 3 chained_instrumented = Some (SetLocal 3 0 (SetLocal 7 1 (GetLocal 4 1)))"
    by code_simp
  have r4: "deref 4 chained = Some (GetLocal 4 1)" and r5: "deref 5 chained = Some (GetLocal 5 1)"
    by code_simp+
  have r: "4 \<in> set (setInfluences ?G 6)" by code_simp
  have l: "length (getSetses ?G 4) = 1" by code_simp
  have n: "(1::nat) \<noteq> 3" by simp
  note res = C10_frame [where lg = straightLineGraph, OF h1 h2 h3 h4]
  from res have e: "eraseReads chained_merged = eraseReads chained" by (rule conjunct1)
  note res2 = res [THEN conjunct2, THEN conjunct2, THEN conjunct2]
  have cp: "copies ?s = [1, 3]" by simp
  have la: "last (trees ?G (copies ?s) chained_instrumented) = chained_merged"
    by (rule res2 [THEN conjunct1])
  have ch: "\<forall>r i. deref r chained = Some (GetLocal r i) \<longrightarrow>
       changes r (trees ?G (copies ?s) chained_instrumented) \<le> 1"
    by (rule res2 [THEN conjunct2, THEN conjunct1])
  have q: "\<forall>c\<in>set (copies ?s). \<forall>d\<in>set (copies ?s). \<forall>D tr S v D' tr' S' v'.
          c \<noteq> d \<and>
          deref c chained_instrumented = Some (SetLocal c D (SetLocal tr S v)) \<and>
          deref d chained_instrumented = Some (SetLocal d D' (SetLocal tr' S' v')) \<longrightarrow>
          (\<forall>r\<in>set (setInfluences ?G tr).
             length (getSetses ?G r) = 1 \<longrightarrow> r \<notin> set (setInfluences ?G tr'))"
    by (rule res2 [THEN conjunct2, THEN conjunct2])
  have la': "last (trees ?G [1, 3] chained_instrumented) = chained_merged"
    using la unfolding cp .
  have c4: "changes 4 (trees ?G [1, 3] chained_instrumented) \<le> 1"
    using ch [rule_format, OF r4] unfolding cp .
  have c5: "changes 5 (trees ?G [1, 3] chained_instrumented) \<le> 1"
    using ch [rule_format, OF r5] unfolding cp .
  from q [rule_format, OF c d, of 2 6 1 "GetLocal 2 1" 0 7 1 "GetLocal 4 1" 4] n dc dd r l
  have x: "4 \<notin> set (setInfluences ?G 7)" by blast
  show ?thesis
    by (rule conjI [OF h4 conjI [OF e conjI [OF la' conjI [OF c4 conjI [OF c5 conjI [OF r x]]]]]])
qed

section \<open>Cleanup\<close>

text \<open>
  C5 as stated does not hold: the write is not always restored to the \<open>D := read(S)\<close>
  it started as. In \<open>z = y; x = y\<close> the read of the second copy is influenced by the
  self-write of the first, which is eligible; so the second copy, \<open>x := read(y)\<close> in
  the input, is \<open>x := read(z)\<close> in the output.
\<close>

theorem C5_counterexample:
  "walk twoCopies \<lparr>allocator = 5, copies = []\<rparr> =
     (twoCopies_instrumented, \<lparr>allocator = 7, copies = [1, 3]\<rparr>) \<and>
   doWalkFunction straightLineGraph twoCopies \<lparr>allocator = 5, copies = []\<rparr> =
     Inr (twoCopies_merged, \<lparr>allocator = 7, copies = [1, 3]\<rparr>) \<and>
   deref 3 twoCopies_instrumented = Some (SetLocal 3 0 (SetLocal 6 1 (GetLocal 4 1))) \<and>
   deref 3 twoCopies = Some (SetLocal 3 0 (GetLocal 4 1)) \<and>
   deref 3 twoCopies_merged = Some (SetLocal 3 0 (GetLocal 4 2)) \<and>
   deref 3 twoCopies_merged \<noteq> deref 3 twoCopies"
  by code_simp

text \<open>
  C5 as amended (cleanup and no leakage). When the pass runs to its end, the output
  has exactly the addresses of the input, so no self-write the pass allocated
  remains. For every recorded copy \<open>D := (S := read(S))\<close>, merged or skipped, the
  output holds at the copy's address a write of \<open>D\<close> whose value is the original read
  node. That read reads the destination of the eligible copy whose self-write
  influences it, and reads \<open>S\<close> when no eligible copy's self-write influences it.
\<close>

theorem C5_cleanup:
  assumes "distinct (addrs func)" and "\<forall>a\<in>set (addrs func). a < n"
    and "walk func \<lparr>allocator = n, copies = []\<rparr> = (t, s)"
    and "doWalkFunction lg func \<lparr>allocator = n, copies = []\<rparr> = Inr (out, s')"
  shows "addrs out = addrs func \<and>
    (\<forall>c\<in>set (copies s). \<forall>D tr S v.
       deref c t = Some (SetLocal c D (SetLocal tr S v)) \<longrightarrow>
       tr \<notin> set (addrs out) \<and>
       (\<exists>g i. v = GetLocal g S \<and> deref c func = Some (SetLocal c D (GetLocal g S)) \<and>
          deref c out = Some (SetLocal c D (GetLocal g i)) \<and>
          (\<forall>d\<in>set (copies s). \<forall>D' tr' S' v'.
             deref d t = Some (SetLocal d D' (SetLocal tr' S' v')) \<and>
             g \<in> set (setInfluences (lg t) tr') \<and>
             (\<forall>r\<in>set (setInfluences (lg t) tr'). length (getSetses (lg t) r) = 1) \<longrightarrow>
             i = D') \<and>
          ((\<forall>d\<in>set (copies s). \<forall>D' tr' S' v'.
             deref d t = Some (SetLocal d D' (SetLocal tr' S' v')) \<and>
             g \<in> set (setInfluences (lg t) tr') \<longrightarrow>
             (\<exists>r\<in>set (setInfluences (lg t) tr'). length (getSetses (lg t) r) \<noteq> 1)) \<longrightarrow>
           i = S)))"
proof (intro conjI ballI allI impI)
  note out = pass_result(1) [OF assms(1,2,4)]
  have "addrs (eraseReads out) = addrs (eraseReads func)" using out by simp
  then show a: "addrs out = addrs func" by (simp add: addrs_eraseReads)
  fix c D tr S v
  assume c: "c \<in> set (copies s)" and h: "deref c t = Some (SetLocal c D (SetLocal tr S v))"
  have t: "t = instrument n func" and cs: "copies s = copyWrites func"
    using walk_fresh_instance [OF assms(3)] by simp_all
  have c': "c \<in> set (copyWrites func)" using c cs by simp
  have "wmap n (copyWrites func) c = Some tr"
    using instrumented_copy(1) [OF assms(1,2) c'] h t by simp
  then have "n \<le> tr" by (auto dest: ran_wmap)
  then show "tr \<notin> set (addrs out)" using a assms(2) by auto
  from instrumented_copy(2) [OF assms(1,2) c'] h t
  obtain g where g: "v = GetLocal g S" "deref c func = Some (SetLocal c D (GetLocal g S))" by auto
  have gf: "deref g func = Some (GetLocal g S)" by (rule copy_read_deref [OF assms(1) g(2)])
  from read_final [OF assms(1,2,3,4) gf] obtain i where
    i: "deref g out = Some (GetLocal g i)"
     "\<forall>d\<in>set (copies s). \<forall>D' tr' S' v'.
          deref d t = Some (SetLocal d D' (SetLocal tr' S' v')) \<and>
          g \<in> set (setInfluences (lg t) tr') \<and>
          (\<forall>r\<in>set (setInfluences (lg t) tr'). length (getSetses (lg t) r) = 1) \<longrightarrow>
          i = D'"
     "(\<forall>d\<in>set (copies s). \<forall>D' tr' S' v'.
          deref d t = Some (SetLocal d D' (SetLocal tr' S' v')) \<and>
          g \<in> set (setInfluences (lg t) tr') \<longrightarrow>
          (\<exists>r\<in>set (setInfluences (lg t) tr'). length (getSetses (lg t) r) \<noteq> 1)) \<longrightarrow>
        i = S"
    by blast
  have "deref c out = Some (SetLocal c D (GetLocal g (case renaming lg n func g of Some d \<Rightarrow> d | None \<Rightarrow> S)))"
    using out g(2) by (simp add: deref_out)
  moreover have "deref g out = Some (GetLocal g (case renaming lg n func g of Some d \<Rightarrow> d | None \<Rightarrow> S))"
    using out gf by (simp add: deref_out)
  ultimately have co: "deref c out = Some (SetLocal c D (GetLocal g i))" using i(1) by simp
  from g co i(2,3)
  show "\<exists>g i. v = GetLocal g S \<and> deref c func = Some (SetLocal c D (GetLocal g S)) \<and>
          deref c out = Some (SetLocal c D (GetLocal g i)) \<and>
          (\<forall>d\<in>set (copies s). \<forall>D' tr' S' v'.
             deref d t = Some (SetLocal d D' (SetLocal tr' S' v')) \<and>
             g \<in> set (setInfluences (lg t) tr') \<and>
             (\<forall>r\<in>set (setInfluences (lg t) tr'). length (getSetses (lg t) r) = 1) \<longrightarrow>
             i = D') \<and>
          ((\<forall>d\<in>set (copies s). \<forall>D' tr' S' v'.
             deref d t = Some (SetLocal d D' (SetLocal tr' S' v')) \<and>
             g \<in> set (setInfluences (lg t) tr') \<longrightarrow>
             (\<exists>r\<in>set (setInfluences (lg t) tr'). length (getSetses (lg t) r) \<noteq> 1)) \<longrightarrow>
           i = S)"
    by blast
qed

text \<open>
  The theorem at work on \<open>z = y; x = y; y\<close>: the first copy is again \<open>z := read(y)\<close>,
  the second is \<open>x := read(z)\<close>.
\<close>

theorem C5_witness:
  "doWalkFunction straightLineGraph chained \<lparr>allocator = 6, copies = []\<rparr> =
     Inr (chained_merged, \<lparr>allocator = 8, copies = [1, 3]\<rparr>) \<and>
   addrs chained_merged = addrs chained \<and>
   6 \<notin> set (addrs chained_merged) \<and>
   deref 1 chained_merged = Some (SetLocal 1 2 (GetLocal 2 1)) \<and>
   deref 3 chained_merged = Some (SetLocal 3 0 (GetLocal 4 2))"
proof -
  let ?G = "straightLineGraph chained_instrumented"
  let ?s = "\<lparr>allocator = 8, copies = [1, 3]\<rparr>"
  have h1: "distinct (addrs chained)" by code_simp
  have h2: "\<forall>a\<in>set (addrs chained). a < 6" by code_simp
  have h3: "walk chained \<lparr>allocator = 6, copies = []\<rparr> = (chained_instrumented, ?s)"
    by code_simp
  have h4: "doWalkFunction straightLineGraph chained \<lparr>allocator = 6, copies = []\<rparr> =
     Inr (chained_merged, ?s)" by code_simp
  have c3: "3 \<in> set (copies ?s)" and c1: "1 \<in> set (copies ?s)" by simp_all
  have d3: "deref 3 chained_instrumented = Some (SetLocal 3 0 (SetLocal 7 1 (GetLocal 4 1)))"
    by code_simp
  have d1: "deref 1 chained_instrumented = Some (SetLocal 1 2 (SetLocal 6 1 (GetLocal 2 1)))"
    by code_simp
  have g1: "4 \<in> set (setInfluences ?G 6)" by code_simp
  have e1: "\<forall>r\<in>set (setInfluences ?G 6). length (getSetses ?G r) = 1" by code_simp
  have n2: "\<forall>d\<in>set (copies ?s). \<forall>D' tr' S' v'.
      deref d chained_instrumented = Some (SetLocal d D' (SetLocal tr' S' v')) \<and>
      2 \<in> set (setInfluences ?G tr') \<longrightarrow>
      (\<exists>r\<in>set (setInfluences ?G tr'). length (getSetses ?G r) \<noteq> 1)"
  proof (intro ballI allI impI)
    fix d D' tr' S' v'
    assume d: "d \<in> set (copies ?s)"
      and h: "deref d chained_instrumented = Some (SetLocal d D' (SetLocal tr' S' v')) \<and>
        2 \<in> set (setInfluences ?G tr')"
    from d have "d = 1 \<or> d = 3" by auto
    then have "tr' = 6 \<or> tr' = 7" using h d1 d3 by auto
    moreover have "2 \<notin> set (setInfluences ?G 6)" "2 \<notin> set (setInfluences ?G 7)"
      by code_simp+
    ultimately show "\<exists>r\<in>set (setInfluences ?G tr'). length (getSetses ?G r) \<noteq> 1"
      using h by auto
  qed
  note res = C5_cleanup [where lg = straightLineGraph, OF h1 h2 h3 h4]
  from res have a: "addrs chained_merged = addrs chained" by (rule conjunct1)
  from res have r2: "\<forall>c\<in>set (copies ?s). \<forall>D tr S v.
       deref c chained_instrumented = Some (SetLocal c D (SetLocal tr S v)) \<longrightarrow>
       tr \<notin> set (addrs chained_merged) \<and>
       (\<exists>g i. v = GetLocal g S \<and> deref c chained = Some (SetLocal c D (GetLocal g S)) \<and>
          deref c chained_merged = Some (SetLocal c D (GetLocal g i)) \<and>
          (\<forall>d\<in>set (copies ?s). \<forall>D' tr' S' v'.
             deref d chained_instrumented = Some (SetLocal d D' (SetLocal tr' S' v')) \<and>
             g \<in> set (setInfluences ?G tr') \<and>
             (\<forall>r\<in>set (setInfluences ?G tr'). length (getSetses ?G r) = 1) \<longrightarrow>
             i = D') \<and>
          ((\<forall>d\<in>set (copies ?s). \<forall>D' tr' S' v'.
             deref d chained_instrumented = Some (SetLocal d D' (SetLocal tr' S' v')) \<and>
             g \<in> set (setInfluences ?G tr') \<longrightarrow>
             (\<exists>r\<in>set (setInfluences ?G tr'). length (getSetses ?G r) \<noteq> 1)) \<longrightarrow>
           i = S))"
    by (rule conjunct2)
  note r1 = r2 [rule_format, OF c1 d1]
  note r3 = r2 [rule_format, OF c3 d3]
  from r1 have b: "6 \<notin> set (addrs chained_merged)" by (rule conjunct1)
  from r1 obtain g i where
    v: "GetLocal 2 1 = (GetLocal g 1 :: op Expression)" and
    o: "deref 1 chained_merged = Some (SetLocal 1 2 (GetLocal g i))" and
    B: "(\<forall>d\<in>set (copies ?s). \<forall>D' tr' S' v'.
             deref d chained_instrumented = Some (SetLocal d D' (SetLocal tr' S' v')) \<and>
             g \<in> set (setInfluences ?G tr') \<longrightarrow>
             (\<exists>r\<in>set (setInfluences ?G tr'). length (getSetses ?G r) \<noteq> 1)) \<longrightarrow>
           i = 1"
    by blast
  from v have g: "g = 2" by simp
  from B n2 have "i = 1" unfolding g by (rule mp)
  with o g have c: "deref 1 chained_merged = Some (SetLocal 1 2 (GetLocal 2 1))" by simp
  from r3 obtain g' i' where
    v': "GetLocal 4 1 = (GetLocal g' 1 :: op Expression)" and
    o': "deref 3 chained_merged = Some (SetLocal 3 0 (GetLocal g' i'))" and
    A: "\<forall>d\<in>set (copies ?s). \<forall>D' tr' S' v'.
          deref d chained_instrumented = Some (SetLocal d D' (SetLocal tr' S' v')) \<and>
          g' \<in> set (setInfluences ?G tr') \<and>
          (\<forall>r\<in>set (setInfluences ?G tr'). length (getSetses ?G r) = 1) \<longrightarrow>
          i' = D'"
    by blast
  from v' have g': "g' = 4" by simp
  from A c1 d1 g1 e1 have "i' = 2" unfolding g' by blast
  with o' g' have d: "deref 3 chained_merged = Some (SetLocal 3 0 (GetLocal 4 2))" by simp
  show ?thesis by (rule conjI [OF h4 conjI [OF a conjI [OF b conjI [OF c d]]]])
qed

section \<open>The assertions under the contract of the graph\<close>

lemma singleton_hd: "length xs = 1 \<Longrightarrow> x \<in> set xs \<Longrightarrow> hd xs = x"
  by (cases xs) auto

lemma optimizeCopy_ok:
  assumes dc: "deref c body = Some (SetLocal c D (GetLocal g S))"
    and SD: "S \<noteq> D"
    and wc: "w c = Some tr"
    and fresh: "\<forall>a b. w a = Some b \<longrightarrow> b \<notin> set (addrs body)"
    and all: "\<forall>r\<in>set (setInfluences G tr). deref r (render w \<rho> body) = Some (GetLocal r S) \<and>
        (length (getSetses G r) = 1 \<longrightarrow> hd (getSetses G r) = Some tr)"
  shows "\<exists>out. optimizeCopy G c (render w \<rho> body) = Inr out"
proof -
  have cin: "c \<in> set (addrs body)" using dc deref_None_iff [of c body] by auto
  then have cw: "\<forall>a. w a \<noteq> Some c" using fresh by auto
  have dr: "deref c (render w \<rho>' body) =
      Some (SetLocal c D (SetLocal tr S (render w \<rho>' (GetLocal g S))))" for \<rho>'
    using deref_render [OF cw, of \<rho>' body] dc wc SD by simp
  let ?can = "\<forall>r\<in>set (setInfluences G tr). length (getSetses G r) = 1"
  have chk: "checkInfluences G tr S (render w \<rho> body) (setInfluences G tr) True = Inr ?can"
    using checkInfluences_ok [OF all, of True] by simp
  show ?thesis
    using dr [of \<rho>] dr [of "renameTo D (setInfluences G tr) \<rho>"] chk
    by (simp add: optimizeCopy_def Let_def fold_setIndex_render del: render.simps)
qed

lemma optimizeLoop_ok:
  assumes "distinct (addrs body)" "distinct cs"
    and "\<forall>c\<in>set cs. \<exists>x. deref c body = Some x \<and> isCopy x"
    and "\<forall>c\<in>set cs. w c \<noteq> None"
    and "\<forall>a b. w a = Some b \<longrightarrow> b \<notin> set (addrs body)"
    and "inj_on w (set cs)"
    and "\<forall>c\<in>set cs. \<forall>r\<in>set (setInfluences G (the (w c))).
           (\<exists>D g S. deref c body = Some (SetLocal c D (GetLocal g S)) \<and>
                    deref r body = Some (GetLocal r S)) \<and>
           Some (the (w c)) \<in> set (getSetses G r)"
    and "\<forall>c\<in>set cs. \<forall>r\<in>set (setInfluences G (the (w c))). \<rho> r = None"
  shows "\<exists>out. optimizeLoop G cs (render (w |` set cs) \<rho> body) = Inr out"
  using assms(2,3,4,6,7,8)
proof (induction cs arbitrary: \<rho>)
  case Nil
  then show ?case by simp
next
  case (Cons c cs)
  let ?w = "w |` set (c # cs)"
  from Cons.prems(2) obtain x where x: "deref c body = Some x" "isCopy x" by auto
  then have "ident x = c" by (auto dest: deref_in_nodes)
  with x(2) obtain D g S where xe: "x = SetLocal c D (GetLocal g S)" "S \<noteq> D"
    by (auto elim: isCopyE)
  from Cons.prems(3) obtain tr where tr: "w c = Some tr" by auto
  have nd: "\<forall>y\<in>set (nodes body). ident y = c \<longrightarrow> y = SetLocal c D (GetLocal g S)"
    using deref_unique [OF assms(1)] x(1) xe(1) by auto
  have fresh: "\<forall>a b. ?w a = Some b \<longrightarrow> b \<notin> set (addrs body)"
    using assms(5) by (auto simp: restrict_map_def split: if_splits)
  have wc: "?w c = Some tr" using tr by simp
  have dc: "deref c body = Some (SetLocal c D (GetLocal g S))" using x(1) xe(1) by simp
  have K: "\<forall>r\<in>set (setInfluences G tr).
              deref r body = Some (GetLocal r S) \<and> Some tr \<in> set (getSetses G r)"
  proof
    fix r assume "r \<in> set (setInfluences G tr)"
    then have "r \<in> set (setInfluences G (the (w c)))" using tr by simp
    moreover have "c \<in> set (c # cs)" by simp
    ultimately have "(\<exists>D g S. deref c body = Some (SetLocal c D (GetLocal g S)) \<and>
                    deref r body = Some (GetLocal r S)) \<and>
           Some (the (w c)) \<in> set (getSetses G r)"
      using Cons.prems(5) by blast
    then show "deref r body = Some (GetLocal r S) \<and> Some tr \<in> set (getSetses G r)"
      using dc tr by auto
  qed
  have all: "\<forall>r\<in>set (setInfluences G tr). deref r (render ?w \<rho> body) = Some (GetLocal r S) \<and>
        (length (getSetses G r) = 1 \<longrightarrow> hd (getSetses G r) = Some tr)"
  proof
    fix r assume r: "r \<in> set (setInfluences G tr)"
    then have rb: "deref r body = Some (GetLocal r S)" and rs: "Some tr \<in> set (getSetses G r)"
      using K by auto
    have "r \<in> set (addrs body)" using rb deref_None_iff [of r body] by auto
    then have "\<forall>a. ?w a \<noteq> Some r" using fresh by auto
    from deref_render [OF this, of \<rho> body] rb
    have "deref r (render ?w \<rho> body) = Some (GetLocal r (case \<rho> r of Some d \<Rightarrow> d | None \<Rightarrow> S))"
      by simp
    moreover have "\<rho> r = None"
    proof -
      have "c \<in> set (c # cs)" by simp
      moreover have "r \<in> set (setInfluences G (the (w c)))" using r tr by simp
      ultimately show ?thesis using Cons.prems(6) by blast
    qed
    ultimately show "deref r (render ?w \<rho> body) = Some (GetLocal r S) \<and>
        (length (getSetses G r) = 1 \<longrightarrow> hd (getSetses G r) = Some tr)"
      using rs by (auto intro: singleton_hd)
  qed
  from optimizeCopy_ok [OF dc xe(2) wc fresh all] obtain t' where
    step: "optimizeCopy G c (render ?w \<rho> body) = Inr t'" by auto
  let ?\<rho> = "if eligible G tr then renameTo D (setInfluences G tr) \<rho> else \<rho>"
  have w': "(\<lambda>a. if a = c then None else ?w a) = w |` set cs"
    using Cons.prems(1) by (auto simp: restrict_map_def)
  from optimizeCopy_render(1) [OF nd dc xe(2) wc fresh step]
  have t': "t' = render (w |` set cs) ?\<rho> body" unfolding w' by auto
  have un: "\<forall>d\<in>set cs. \<forall>r\<in>set (setInfluences G (the (w d))). ?\<rho> r = None"
  proof (intro ballI)
    fix d r assume d: "d \<in> set cs" and r: "r \<in> set (setInfluences G (the (w d)))"
    have r0: "\<rho> r = None" using Cons.prems(6) d r by simp
    show "?\<rho> r = None"
    proof (cases "eligible G tr \<and> r \<in> set (setInfluences G tr)")
      case True
      then have len: "length (getSetses G r) = 1" by (simp add: eligible_def)
      have "Some tr \<in> set (getSetses G r)" using K True by auto
      then have h1: "hd (getSetses G r) = Some tr" using len by (rule singleton_hd [rotated])
      have "d \<in> set (c # cs)" using d by simp
      then have "Some (the (w d)) \<in> set (getSetses G r)"
        using Cons.prems(5) r by blast
      then have "hd (getSetses G r) = Some (the (w d))" using len by (rule singleton_hd [rotated])
      with h1 have "the (w d) = tr" by simp
      moreover have "w d \<noteq> None" using Cons.prems(3) d by auto
      ultimately have "w d = w c" using tr by auto
      moreover have "d \<in> set (c # cs)" "c \<in> set (c # cs)" using d by simp_all
      ultimately have "d = c" by (rule inj_onD [OF Cons.prems(4)])
      then show ?thesis using Cons.prems(1) d by simp
    next
      case False
      then show ?thesis using r0 by (auto simp: renameTo_def)
    qed
  qed
  have inj: "inj_on w (set cs)" using Cons.prems(4) by (auto intro: inj_on_subset)
  have p1: "distinct cs" using Cons.prems(1) by simp
  have p2: "\<forall>c\<in>set cs. \<exists>x. deref c body = Some x \<and> isCopy x" using Cons.prems(2) by simp
  have p3: "\<forall>c\<in>set cs. w c \<noteq> None" using Cons.prems(3) by simp
  have p5: "\<forall>c\<in>set cs. \<forall>r\<in>set (setInfluences G (the (w c))).
           (\<exists>D g S. deref c body = Some (SetLocal c D (GetLocal g S)) \<and>
                    deref r body = Some (GetLocal r S)) \<and>
           Some (the (w c)) \<in> set (getSetses G r)" using Cons.prems(5) by simp
  from Cons.IH [OF p1 p2 p3 inj p5 un]
  obtain out where "optimizeLoop G cs (render (w |` set cs) ?\<rho> body) = Inr out" by blast
  then show ?case using step t' by simp
qed

text \<open>
  C7 (the assertions hold). If the graph built over the instrumented tree keeps the
  contract of the Dependency Graph, the pass returns normally: no assertion fires for
  any copy, although earlier copies may already have renamed reads. Every read
  influenced by the self-write of a recorded copy reads the self-write's slot, and
  when its reaching-definition set has one member, that member is the self-write.
\<close>

theorem C7_assertions_hold:
  assumes "distinct (addrs func)" and "\<forall>a\<in>set (addrs func). a < n"
    and "walk func \<lparr>allocator = n, copies = []\<rparr> = (t, s)"
    and "graphContract (lg t) t"
  shows "(\<exists>out. doWalkFunction lg func \<lparr>allocator = n, copies = []\<rparr> = Inr (out, s)) \<and>
    (\<forall>c\<in>set (copies s). \<forall>D tr S v.
       deref c t = Some (SetLocal c D (SetLocal tr S v)) \<longrightarrow>
       (\<forall>r\<in>set (setInfluences (lg t) tr).
          deref r func = Some (GetLocal r S) \<and>
          (length (getSetses (lg t) r) = 1 \<longrightarrow> getSetses (lg t) r = [Some tr])))"
proof -
  let ?cs = "copyWrites func" and ?w = "wmap n (copyWrites func)"
  have t: "t = instrument n func" and cs: "copies s = ?cs"
    using walk_fresh_instance [OF assms(3)] by simp_all
  have s: "s = \<lparr>allocator = n + length ?cs, copies = ?cs\<rparr>"
    using assms(3) by (simp add: walk_instrument)
  have tr: "t = render ?w Map.empty func" using t instrument_render [OF assms(1)] by simp
  have key: "deref r func = Some (GetLocal r S) \<and> Some tr \<in> set (getSetses (lg t) r)"
    if c: "c \<in> set ?cs" and d: "deref c t = Some (SetLocal c D (SetLocal tr S v))"
      and r: "r \<in> set (setInfluences (lg t) tr)" for c D tr S v r
  proof -
    have "SetLocal c D (SetLocal tr S v) \<in> set (nodes t)" using d by (auto dest: deref_in_nodes)
    then have "SetLocal tr S v \<in> set (nodes t)" by (rule nodes_child)
    then have "\<forall>r\<in>set (setInfluences (lg t) tr).
        deref r t = Some (GetLocal r S) \<and> Some tr \<in> set (getSetses (lg t) r)"
      using assms(4) unfolding graphContract_def by force
    then have 1: "deref r t = Some (GetLocal r S)" and 2: "Some tr \<in> set (getSetses (lg t) r)"
      using r by auto
    from deref_render_GetLocal [OF 1 [unfolded tr]] have "deref r func = Some (GetLocal r S)"
      by auto
    then show ?thesis using 2 by simp
  qed
  have K: "\<forall>c\<in>set ?cs. \<forall>r\<in>set (setInfluences (lg t) (the (?w c))).
           (\<exists>D g S. deref c func = Some (SetLocal c D (GetLocal g S)) \<and>
                    deref r func = Some (GetLocal r S)) \<and>
           Some (the (?w c)) \<in> set (getSetses (lg t) r)"
  proof (intro ballI)
    fix c r assume c: "c \<in> set ?cs" and r: "r \<in> set (setInfluences (lg t) (the (?w c)))"
    from instrumented_copy_ex [OF assms(1,2) c] obtain tr S v where
      d: "deref c t = Some (SetLocal c (dest func c) (SetLocal tr S v))" using t by auto
    have w: "?w c = Some tr" using instrumented_copy(1) [OF assms(1,2) c] d t by simp
    from instrumented_copy(2) [OF assms(1,2) c] d t
    obtain g where "deref c func = Some (SetLocal c (dest func c) (GetLocal g S))" by auto
    moreover have "deref r func = Some (GetLocal r S) \<and> Some tr \<in> set (getSetses (lg t) r)"
      using key [OF c d] r w by simp
    ultimately show "(\<exists>D g S. deref c func = Some (SetLocal c D (GetLocal g S)) \<and>
                    deref r func = Some (GetLocal r S)) \<and>
           Some (the (?w c)) \<in> set (getSetses (lg t) r)"
      using w by auto
  qed
  have r: "?w |` set ?cs = ?w"
    by (rule ext) (simp add: restrict_map_def wmap_None)
  have a3: "\<forall>c\<in>set ?cs. \<exists>x. deref c func = Some x \<and> isCopy x"
    using copyWrites_deref [OF assms(1)] by blast
  have a4: "\<forall>c\<in>set ?cs. ?w c \<noteq> None" using wmap_defined by blast
  have dcs: "distinct ?cs" by (rule distinct_copyWrites [OF assms(1)])
  from optimizeLoop_ok [OF assms(1) dcs a3 a4 wmap_fresh [OF assms(2)] wmap_inj_on [OF dcs] K,
      of Map.empty]
  obtain out where "optimizeLoop (lg t) ?cs (render (?w |` set ?cs) Map.empty func) = Inr out"
    by auto
  then have "optimizeLoop (lg t) ?cs t = Inr out" using r tr by simp
  then have "doWalkFunction lg func \<lparr>allocator = n, copies = []\<rparr> = Inr (out, s)"
    using t s by (simp add: doWalkFunction_def optimizeCopies_def walk_instrument)
  moreover have "\<forall>c\<in>set (copies s). \<forall>D tr S v.
       deref c t = Some (SetLocal c D (SetLocal tr S v)) \<longrightarrow>
       (\<forall>r\<in>set (setInfluences (lg t) tr).
          deref r func = Some (GetLocal r S) \<and>
          (length (getSetses (lg t) r) = 1 \<longrightarrow> getSetses (lg t) r = [Some tr]))"
  proof (intro ballI allI impI conjI)
    fix c D tr S v r
    assume c: "c \<in> set (copies s)" and d: "deref c t = Some (SetLocal c D (SetLocal tr S v))"
      and r: "r \<in> set (setInfluences (lg t) tr)"
    have k: "deref r func = Some (GetLocal r S) \<and> Some tr \<in> set (getSetses (lg t) r)"
      using key [OF _ d r] c cs by simp
    then show "deref r func = Some (GetLocal r S)" by simp
    assume "length (getSetses (lg t) r) = 1"
    then show "getSetses (lg t) r = [Some tr]"
      using k by (cases "getSetses (lg t) r") auto
  qed
  ultimately show ?thesis by blast
qed

text \<open>
  The theorem at work on \<open>z = y; x = y\<close>, where the first copy renames a read before
  the second copy is processed.
\<close>

theorem C7_witness:
  "graphContract (straightLineGraph twoCopies_instrumented) twoCopies_instrumented \<and>
   (\<exists>out. doWalkFunction straightLineGraph twoCopies \<lparr>allocator = 5, copies = []\<rparr> =
      Inr (out, \<lparr>allocator = 7, copies = [1, 3]\<rparr>))"
proof -
  have h1: "distinct (addrs twoCopies)" by code_simp
  have h2: "\<forall>a\<in>set (addrs twoCopies). a < 5" by code_simp
  have h3: "walk twoCopies \<lparr>allocator = 5, copies = []\<rparr> =
     (twoCopies_instrumented, \<lparr>allocator = 7, copies = [1, 3]\<rparr>)" by code_simp
  have h4: "graphContract (straightLineGraph twoCopies_instrumented) twoCopies_instrumented"
    by code_simp
  from C7_assertions_hold [where lg = straightLineGraph, OF h1 h2 h3 h4]
  have "\<exists>out. doWalkFunction straightLineGraph twoCopies \<lparr>allocator = 5, copies = []\<rparr> =
      Inr (out, \<lparr>allocator = 7, copies = [1, 3]\<rparr>)" by (rule conjunct1)
  with h4 show ?thesis by (intro conjI)
qed

section \<open>The pass can change what a function returns\<close>

text \<open>
  C1 (semantics preservation) fails on the code. In \<open>x = y; x = 5; y\<close> the last read
  of \<open>y\<close> is reached by the self-write of the copy only, so the copy is eligible and
  the read is renamed to \<open>x\<close>; but \<open>x\<close> has been written again in between. Started
  with 7 in \<open>y\<close>, the function returns 7 before the pass and 5 after it.
\<close>

theorem C1_merge_changes_result:
  "walk overwritten \<lparr>allocator = 6, copies = []\<rparr> =
     (overwritten_instrumented, \<lparr>allocator = 7, copies = [1]\<rparr>) \<and>
   getSetses (straightLineGraph overwritten_instrumented) 5 = [Some 6] \<and>
   setInfluences (straightLineGraph overwritten_instrumented) 6 = [5] \<and>
   doWalkFunction straightLineGraph overwritten \<lparr>allocator = 6, copies = []\<rparr> =
     Inr (overwritten_merged, \<lparr>allocator = 7, copies = [1]\<rparr>) \<and>
   returns overwritten (\<lambda>i. if i = 1 then 7 else 0) = Some 7 \<and>
   returns overwritten_merged (\<lambda>i. if i = 1 then 7 else 0) = Some 5"
  by code_simp

end
